theory Spec2Isabelle
  imports Main "HOL-Library.Char_ord" "HOL-Library.List_Lexorder"
begin

section \<open>The database engine, as far as init_db.py uses it\<close>

text \<open>
  init_db.py drives SQLite through five kinds of statement: a pragma, CREATE TABLE IF NOT
  EXISTS, CREATE INDEX IF NOT EXISTS, INSERT OR IGNORE and SELECT MAX. A database is the
  list of its tables (definition and rows) and the list of its indices, in creation order.
  A table that exists already may have any definition that the clauses below can express.

  Outside this model: views, triggers, virtual tables, the internal sqlite_sequence table,
  real and blob values, and the conversion of a stored value to the affinity of its column
  (a value is stored as the statement gives it).
\<close>

datatype val = Null | IntV int | TextV string

datatype key_clause = NotKey | PrimaryKey | PrimaryKeyAutoincrement

datatype default_clause = NoDefault | DefaultInt int | DefaultCurrentTimestamp

datatype check_clause = NoCheck | CheckIn "string list" | CheckBetween int int

record column =
  col_name :: string
  col_type :: string
  col_not_null :: bool
  col_key :: key_clause
  col_unique :: bool
  col_default :: default_clause
  col_check :: check_clause

record foreign_key =
  fk_column :: string
  fk_table :: string
  fk_ref :: string
  fk_cascade :: bool

record table_def =
  columns :: "column list"
  foreign_keys :: "foreign_key list"

type_synonym row = "(string \<times> val) list"

record table =
  tdef :: table_def
  rows :: "row list"

record database =
  tables :: "(string \<times> table) list"
  indices :: "(string \<times> string \<times> string list) list"

datatype error =
    OperationalError string
  | DatabaseError string
  | IntegrityError string
  | IsADirectoryError string
  | FileExistsError string

datatype stmt =
    PragmaForeignKeysOn
  | CreateTableIfNotExists string table_def
  | CreateIndexIfNotExists string string "string list"
  | InsertOrIgnore string "(string \<times> val) list"
  | SelectMax string string

definition empty_db :: database where
  "empty_db = \<lparr>tables = [], indices = []\<rparr>"

definition column_names :: "table \<Rightarrow> string list" where
  "column_names t = map col_name (columns (tdef t))"

definition cell :: "row \<Rightarrow> string \<Rightarrow> val" where
  "cell r c = (case map_of r c of None \<Rightarrow> Null | Some v \<Rightarrow> v)"

text \<open>CREATE TABLE IF NOT EXISTS: nothing happens when a table of that name exists; an
  index of that name is an error; otherwise the table is added, empty.\<close>

definition create_table_if_not_exists :: "string \<Rightarrow> table_def \<Rightarrow> database \<Rightarrow> error + database" where
  "create_table_if_not_exists name d db =
     (if map_of (tables db) name \<noteq> None then Inr db
      else if map_of (indices db) name \<noteq> None
        then Inl (OperationalError (''there is already an index named '' @ name))
      else Inr (db\<lparr>tables := tables db @ [(name, \<lparr>tdef = d, rows = []\<rparr>)]\<rparr>))"

text \<open>CREATE INDEX IF NOT EXISTS: the table must exist, no table may have the index's
  name, an index of that name (on whatever table) makes the statement do nothing, and
  only then are the columns looked up.\<close>

definition create_index_if_not_exists ::
  "string \<Rightarrow> string \<Rightarrow> string list \<Rightarrow> database \<Rightarrow> error + database" where
  "create_index_if_not_exists name tbl cols db =
     (case map_of (tables db) tbl of
        None \<Rightarrow> Inl (OperationalError (''no such table: main.'' @ tbl))
      | Some t \<Rightarrow>
          if map_of (tables db) name \<noteq> None
            then Inl (OperationalError (''there is already a table named '' @ name))
          else if map_of (indices db) name \<noteq> None then Inr db
          else (case filter (\<lambda>c. c \<notin> set (column_names t)) cols of
                  m # _ \<Rightarrow> Inl (OperationalError (''table '' @ tbl @ '' has no column named '' @ m))
                | [] \<Rightarrow> Inr (db\<lparr>indices := indices db @ [(name, tbl, cols)]\<rparr>)))"

subsection \<open>Inserting a row\<close>

definition is_rowid_alias :: "column \<Rightarrow> bool" where
  "is_rowid_alias c = (col_type c = ''INTEGER'' \<and> col_key c \<noteq> NotKey)"

definition int_cells :: "table \<Rightarrow> string \<Rightarrow> int list" where
  "int_cells t c = concat (map (\<lambda>r. case cell r c of IntV i \<Rightarrow> [i] | _ \<Rightarrow> []) (rows t))"

definition next_rowid :: "table \<Rightarrow> string \<Rightarrow> int" where
  "next_rowid t c = (case int_cells t c of [] \<Rightarrow> 1 | i # is \<Rightarrow> fold max is i + 1)"

definition default_value :: "string \<Rightarrow> column \<Rightarrow> val" where
  "default_value now c =
     (case col_default c of
        NoDefault \<Rightarrow> Null
      | DefaultInt i \<Rightarrow> IntV i
      | DefaultCurrentTimestamp \<Rightarrow> TextV now)"

text \<open>The row an INSERT builds: a named column takes the given value, any other its
  default; a NULL in an INTEGER PRIMARY KEY column becomes the next row id.\<close>

definition new_row :: "string \<Rightarrow> table \<Rightarrow> (string \<times> val) list \<Rightarrow> row" where
  "new_row now t vals =
     map (\<lambda>c. (col_name c,
            (let v = (case map_of vals (col_name c) of None \<Rightarrow> default_value now c | Some v \<Rightarrow> v)
             in if is_rowid_alias c \<and> v = Null then IntV (next_rowid t (col_name c)) else v)))
         (columns (tdef t))"

fun check_holds :: "check_clause \<Rightarrow> val \<Rightarrow> bool" where
  "check_holds NoCheck v = True"
| "check_holds c Null = True"
| "check_holds (CheckIn xs) (TextV s) = (s \<in> set xs)"
| "check_holds (CheckIn xs) (IntV i) = False"
| "check_holds (CheckBetween lo hi) (IntV i) = (lo \<le> i \<and> i \<le> hi)"
| "check_holds (CheckBetween lo hi) (TextV s) = False"

definition is_key :: "column \<Rightarrow> bool" where
  "is_key c = (col_key c \<noteq> NotKey \<or> col_unique c)"

text \<open>The constraints that OR IGNORE resolves by skipping the row: NOT NULL, CHECK, and
  UNIQUE or PRIMARY KEY (NULLs never collide).\<close>

definition violates :: "table \<Rightarrow> row \<Rightarrow> bool" where
  "violates t r =
     (\<exists>c \<in> set (columns (tdef t)).
        (col_not_null c \<and> cell r (col_name c) = Null)
      \<or> \<not> check_holds (col_check c) (cell r (col_name c))
      \<or> (is_key c \<and> cell r (col_name c) \<noteq> Null
           \<and> (\<exists>r' \<in> set (rows t). cell r' (col_name c) = cell r (col_name c))))"

definition datatype_mismatch :: "table \<Rightarrow> row \<Rightarrow> bool" where
  "datatype_mismatch t r =
     (\<exists>c \<in> set (columns (tdef t)).
        is_rowid_alias c \<and> (case cell r (col_name c) of TextV s \<Rightarrow> True | _ \<Rightarrow> False))"

definition set_table :: "string \<Rightarrow> table \<Rightarrow> database \<Rightarrow> database" where
  "set_table name t db =
     db\<lparr>tables := map (\<lambda>(n, t'). if n = name then (n, t) else (n, t')) (tables db)\<rparr>"

text \<open>A foreign key of the new row holds when the child value is NULL or occurs in the
  parent's column, the new row counted.\<close>

definition fk_holds :: "database \<Rightarrow> row \<Rightarrow> foreign_key \<Rightarrow> bool" where
  "fk_holds db r fk =
     (case cell r (fk_column fk) of
        Null \<Rightarrow> True
      | v \<Rightarrow> (case map_of (tables db) (fk_table fk) of
                None \<Rightarrow> False
              | Some p \<Rightarrow> \<exists>pr \<in> set (rows p). cell pr (fk_ref fk) = v))"

definition insert_or_ignore ::
  "bool \<Rightarrow> string \<Rightarrow> string \<Rightarrow> (string \<times> val) list \<Rightarrow> database \<Rightarrow> error + database" where
  "insert_or_ignore fk_on now tbl vals db =
     (case map_of (tables db) tbl of
        None \<Rightarrow> Inl (OperationalError (''no such table: '' @ tbl))
      | Some t \<Rightarrow>
          (case filter (\<lambda>c. c \<notin> set (column_names t)) (map fst vals) of
             m # _ \<Rightarrow> Inl (OperationalError (''table '' @ tbl @ '' has no column named '' @ m))
           | [] \<Rightarrow>
               (let r = new_row now t vals in
                if datatype_mismatch t r then Inl (IntegrityError ''datatype mismatch'')
                else if violates t r then Inr db
                else (let db' = set_table tbl (t\<lparr>rows := rows t @ [r]\<rparr>) db in
                      if fk_on \<and> \<not> (\<forall>fk \<in> set (foreign_keys (tdef t)). fk_holds db' r fk)
                        then Inl (IntegrityError ''FOREIGN KEY constraint failed'')
                      else Inr db'))))"

subsection \<open>SELECT MAX\<close>

text \<open>MAX skips NULLs, orders every integer below every text, and is NULL over no
  values.\<close>

fun val_le :: "val \<Rightarrow> val \<Rightarrow> bool" where
  "val_le Null v = True"
| "val_le v Null = False"
| "val_le (IntV a) (IntV b) = (a \<le> b)"
| "val_le (IntV a) (TextV s) = True"
| "val_le (TextV s) (IntV b) = False"
| "val_le (TextV a) (TextV b) = (a \<le> b)"

definition max_val :: "val list \<Rightarrow> val" where
  "max_val vs = fold (\<lambda>v m. if val_le v m then m else v) vs Null"

definition select_max :: "string \<Rightarrow> string \<Rightarrow> database \<Rightarrow> error + val list list" where
  "select_max c tbl db =
     (case map_of (tables db) tbl of
        None \<Rightarrow> Inl (OperationalError (''no such table: '' @ tbl))
      | Some t \<Rightarrow>
          if c \<notin> set (column_names t) then Inl (OperationalError (''no such column: '' @ c))
          else Inr [[max_val (map (\<lambda>r. cell r c) (rows t))]])"

text \<open>One statement on a database: the new database and the rows the cursor holds. The
  pragma changes the connection, not the database.\<close>

fun run_stmt :: "bool \<Rightarrow> string \<Rightarrow> stmt \<Rightarrow> database \<Rightarrow> error + database \<times> val list list" where
  "run_stmt fk_on now PragmaForeignKeysOn db = Inr (db, [])"
| "run_stmt fk_on now (CreateTableIfNotExists name d) db =
     map_sum id (\<lambda>db'. (db', [])) (create_table_if_not_exists name d db)"
| "run_stmt fk_on now (CreateIndexIfNotExists name tbl cols) db =
     map_sum id (\<lambda>db'. (db', [])) (create_index_if_not_exists name tbl cols db)"
| "run_stmt fk_on now (InsertOrIgnore tbl vals) db =
     map_sum id (\<lambda>db'. (db', [])) (insert_or_ignore fk_on now tbl vals db)"
| "run_stmt fk_on now (SelectMax c tbl) db =
     map_sum id (\<lambda>res. (db, res)) (select_max c tbl db)"

section \<open>The world init_db.py runs in\<close>

text \<open>
  The files of the working directory by relative path, the clock that CURRENT_TIMESTAMP
  reads, and the trace of what the script has done so far, in order. A file of no bytes is
  an empty database. File permissions are not modelled. Every statement reaches the file
  as it is executed: Python's sqlite3 runs DDL outside a transaction, and the one INSERT
  is followed by the commit with nothing in between that can fail.
\<close>

datatype node = Dir | TextFile string | DbFile database

datatype event =
    Print string
  | Connect string
  | Execute stmt
  | Commit
  | OpenWrite string
  | MakeDirs string

record world =
  cwd :: string
  files :: "string \<rightharpoonup> node"
  clock :: string
  trace :: "event list"

record conn =
  conn_path :: string
  conn_foreign_keys :: bool

type_synonym 'a result = "(error + 'a) \<times> world"

definition and_then :: "'a result \<Rightarrow> ('a \<Rightarrow> world \<Rightarrow> 'b result) \<Rightarrow> 'b result" where
  "and_then m k = (case m of (Inl e, w) \<Rightarrow> (Inl e, w) | (Inr x, w) \<Rightarrow> k x w)"

definition log :: "event \<Rightarrow> world \<Rightarrow> world" where
  "log e w = w\<lparr>trace := trace w @ [e]\<rparr>"

definition print :: "string \<Rightarrow> world \<Rightarrow> world" where
  "print s w = log (Print s) w"

definition path_exists :: "string \<Rightarrow> world \<Rightarrow> bool" where
  "path_exists p w = (files w p \<noteq> None)"

definition db_of_node :: "node option \<Rightarrow> database option" where
  "db_of_node n =
     (case n of
        Some (DbFile db) \<Rightarrow> Some db
      | Some (TextFile s) \<Rightarrow> (if s = [] then Some empty_db else None)
      | _ \<Rightarrow> None)"

definition database_at :: "string \<Rightarrow> world \<Rightarrow> database option" where
  "database_at p w = db_of_node (files w p)"

text \<open>sqlite3.connect: creates the file when there is none, fails on a directory, and
  does not read the file.\<close>

definition connect :: "string \<Rightarrow> world \<Rightarrow> conn result" where
  "connect p w =
     (let w1 = log (Connect p) w; c = \<lparr>conn_path = p, conn_foreign_keys = False\<rparr> in
      case files w p of
        None \<Rightarrow> (Inr c, w1\<lparr>files := (files w1)(p \<mapsto> DbFile empty_db)\<rparr>)
      | Some Dir \<Rightarrow> (Inl (OperationalError ''unable to open database file''), w1)
      | Some f \<Rightarrow> (Inr c, w1))"

definition set_foreign_keys_on :: "conn \<Rightarrow> world \<Rightarrow> conn result" where
  "set_foreign_keys_on c w =
     (Inr (c\<lparr>conn_foreign_keys := True\<rparr>), log (Execute PragmaForeignKeysOn) w)"

definition execute :: "conn \<Rightarrow> stmt \<Rightarrow> world \<Rightarrow> val list list result" where
  "execute c s w =
     (let w1 = log (Execute s) w in
      case files w (conn_path c) of
        None \<Rightarrow> (Inl (OperationalError ''unable to open database file''), w1)
      | Some Dir \<Rightarrow> (Inl (OperationalError ''unable to open database file''), w1)
      | Some f \<Rightarrow>
          (case db_of_node (Some f) of
             None \<Rightarrow> (Inl (DatabaseError ''file is not a database''), w1)
           | Some db \<Rightarrow>
               (case run_stmt (conn_foreign_keys c) (clock w) s db of
                  Inl e \<Rightarrow> (Inl e, w1)
                | Inr (db', res) \<Rightarrow>
                    (Inr res, w1\<lparr>files := (files w1)(conn_path c \<mapsto> DbFile db')\<rparr>))))"

fun execute_all :: "conn \<Rightarrow> stmt list \<Rightarrow> world \<Rightarrow> unit result" where
  "execute_all c [] w = (Inr (), w)"
| "execute_all c (s # ss) w = and_then (execute c s w) (\<lambda>_. execute_all c ss)"

definition commit :: "conn \<Rightarrow> world \<Rightarrow> unit result" where
  "commit c w = (Inr (), log Commit w)"

definition fetchone :: "val list list \<Rightarrow> val list option" where
  "fetchone res = (case res of [] \<Rightarrow> None | r # _ \<Rightarrow> Some r)"

text \<open>open(path, "w") and the writes inside the with block: a directory cannot be
  opened; anything else is replaced by the text written.\<close>

definition write_file :: "string \<Rightarrow> string list \<Rightarrow> world \<Rightarrow> unit result" where
  "write_file p chunks w =
     (let w1 = log (OpenWrite p) w in
      case files w p of
        Some Dir \<Rightarrow> (Inl (IsADirectoryError p), w1)
      | _ \<Rightarrow> (Inr (), w1\<lparr>files := (files w1)(p \<mapsto> TextFile (concat chunks))\<rparr>))"

text \<open>os.makedirs(path, exist_ok=True) for a single path component.\<close>

definition makedirs :: "string \<Rightarrow> world \<Rightarrow> unit result" where
  "makedirs p w =
     (let w1 = log (MakeDirs p) w in
      case files w p of
        None \<Rightarrow> (Inr (), w1\<lparr>files := (files w1)(p \<mapsto> Dir)\<rparr>)
      | Some Dir \<Rightarrow> (Inr (), w1)
      | Some f \<Rightarrow> (Inl (FileExistsError p), w1))"

text \<open>os.path.abspath of a relative name, the working directory being absolute and
  normalised as os.getcwd gives it.\<close>

definition abspath :: "string \<Rightarrow> string \<Rightarrow> string" where
  "abspath dir name = (if dir \<noteq> [] \<and> last dir = CHR ''/'' then dir @ name else dir @ ''/'' @ name)"

section \<open>init_db.py\<close>

definition DB_NAME :: string where
  "DB_NAME = ''myapp.db''"

definition DB_PATH :: "world \<Rightarrow> string" where
  "DB_PATH w = abspath (cwd w) DB_NAME"

definition SCHEMA_VERSION :: int where
  "SCHEMA_VERSION = 1"

definition get_conn :: "world \<Rightarrow> conn result" where
  "get_conn w = and_then (connect DB_NAME w) set_foreign_keys_on"

subsection \<open>The tables of create_tables\<close>

definition col :: "string \<Rightarrow> string \<Rightarrow> column" where
  "col name ty =
     \<lparr>col_name = name, col_type = ty, col_not_null = False, col_key = NotKey,
      col_unique = False, col_default = NoDefault, col_check = NoCheck\<rparr>"

definition cascade :: "string \<Rightarrow> string \<Rightarrow> string \<Rightarrow> foreign_key" where
  "cascade c t r = \<lparr>fk_column = c, fk_table = t, fk_ref = r, fk_cascade = True\<rparr>"

definition schema_migrations_ddl :: table_def where
  "schema_migrations_ddl =
     \<lparr>columns =
        [(col ''version'' ''INTEGER'')\<lparr>col_key := PrimaryKey\<rparr>,
         (col ''applied_at'' ''TIMESTAMP'')\<lparr>col_default := DefaultCurrentTimestamp\<rparr>],
      foreign_keys = []\<rparr>"

definition users_ddl :: table_def where
  "users_ddl =
     \<lparr>columns =
        [(col ''id'' ''INTEGER'')\<lparr>col_key := PrimaryKeyAutoincrement\<rparr>,
         (col ''username'' ''TEXT'')\<lparr>col_not_null := True, col_unique := True\<rparr>,
         (col ''password_hash'' ''TEXT'')\<lparr>col_not_null := True\<rparr>,
         (col ''score'' ''INTEGER'')\<lparr>col_not_null := True, col_default := DefaultInt 0\<rparr>,
         (col ''created_at'' ''TIMESTAMP'')
           \<lparr>col_not_null := True, col_default := DefaultCurrentTimestamp\<rparr>],
      foreign_keys = []\<rparr>"

definition games_ddl :: table_def where
  "games_ddl =
     \<lparr>columns =
        [(col ''id'' ''INTEGER'')\<lparr>col_key := PrimaryKeyAutoincrement\<rparr>,
         (col ''player_x_id'' ''INTEGER'')\<lparr>col_not_null := True\<rparr>,
         (col ''player_o_id'' ''INTEGER'')\<lparr>col_not_null := True\<rparr>,
         col ''winner_id'' ''INTEGER'',
         (col ''status'' ''TEXT'')
           \<lparr>col_not_null := True, col_check := CheckIn [''waiting'', ''active'', ''finished'']\<rparr>,
         (col ''started_at'' ''TIMESTAMP'')\<lparr>col_default := DefaultCurrentTimestamp\<rparr>,
         col ''finished_at'' ''TIMESTAMP''],
      foreign_keys =
        [cascade ''player_x_id'' ''users'' ''id'',
         cascade ''player_o_id'' ''users'' ''id'',
         (cascade ''winner_id'' ''users'' ''id'')\<lparr>fk_cascade := False\<rparr>]\<rparr>"

definition moves_ddl :: table_def where
  "moves_ddl =
     \<lparr>columns =
        [(col ''id'' ''INTEGER'')\<lparr>col_key := PrimaryKeyAutoincrement\<rparr>,
         (col ''game_id'' ''INTEGER'')\<lparr>col_not_null := True\<rparr>,
         (col ''user_id'' ''INTEGER'')\<lparr>col_not_null := True\<rparr>,
         (col ''row'' ''INTEGER'')\<lparr>col_not_null := True, col_check := CheckBetween 0 2\<rparr>,
         (col ''col'' ''INTEGER'')\<lparr>col_not_null := True, col_check := CheckBetween 0 2\<rparr>,
         (col ''move_num'' ''INTEGER'')\<lparr>col_not_null := True\<rparr>,
         (col ''created_at'' ''TIMESTAMP'')\<lparr>col_default := DefaultCurrentTimestamp\<rparr>],
      foreign_keys =
        [cascade ''game_id'' ''games'' ''id'',
         cascade ''user_id'' ''users'' ''id'']\<rparr>"

definition scores_ddl :: table_def where
  "scores_ddl =
     \<lparr>columns =
        [(col ''user_id'' ''INTEGER'')\<lparr>col_key := PrimaryKey\<rparr>,
         (col ''total_games'' ''INTEGER'')\<lparr>col_not_null := True, col_default := DefaultInt 0\<rparr>,
         (col ''wins'' ''INTEGER'')\<lparr>col_not_null := True, col_default := DefaultInt 0\<rparr>,
         (col ''losses'' ''INTEGER'')\<lparr>col_not_null := True, col_default := DefaultInt 0\<rparr>,
         (col ''draws'' ''INTEGER'')\<lparr>col_not_null := True, col_default := DefaultInt 0\<rparr>],
      foreign_keys = [cascade ''user_id'' ''users'' ''id'']\<rparr>"

text \<open>The eight DDL statements of create_tables, in the order of the source.\<close>

definition ddl_statements :: "stmt list" where
  "ddl_statements =
     [CreateTableIfNotExists ''schema_migrations'' schema_migrations_ddl,
      CreateTableIfNotExists ''users'' users_ddl,
      CreateIndexIfNotExists ''idx_users_username'' ''users'' [''username''],
      CreateTableIfNotExists ''games'' games_ddl,
      CreateIndexIfNotExists ''idx_games_status'' ''games'' [''status''],
      CreateTableIfNotExists ''moves'' moves_ddl,
      CreateIndexIfNotExists ''idx_moves_gameid'' ''moves'' [''game_id''],
      CreateTableIfNotExists ''scores'' scores_ddl]"

definition record_version :: stmt where
  "record_version = InsertOrIgnore ''schema_migrations'' [(''version'', IntV SCHEMA_VERSION)]"

definition create_tables :: "conn \<Rightarrow> world \<Rightarrow> unit result" where
  "create_tables c w =
     and_then (execute_all c ddl_statements w) (\<lambda>_ w.
     and_then (execute c record_version w) (\<lambda>_ w.
     commit c w))"

text \<open>\<^verbatim>\<open>row and row[0] == SCHEMA_VERSION\<close>, read as the truth value the caller tests: no row
  and the empty row are false.\<close>

definition is_schema_up_to_date :: "conn \<Rightarrow> world \<Rightarrow> bool result" where
  "is_schema_up_to_date c w =
     and_then (execute c (SelectMax ''version'' ''schema_migrations'') w) (\<lambda>res w.
       (Inr (case fetchone res of
               None \<Rightarrow> False
             | Some [] \<Rightarrow> False
             | Some (v # _) \<Rightarrow> v = IntV SCHEMA_VERSION), w))"

definition connection_info :: "world \<Rightarrow> string list" where
  \<open>connection_info w =
     [''# SQLite connection methods:\<newline>'',
      ''# Python: sqlite3.connect('' @ [CHR 0x27] @ DB_NAME @ [CHR 0x27] @ '')\<newline>'',
      ''# Connection string: sqlite:///'' @ DB_PATH w @ ''\<newline>'',
      ''# File path: '' @ DB_PATH w @ ''\<newline>'']\<close>

definition visualizer_env :: "world \<Rightarrow> string list" where
  \<open>visualizer_env w = [''export SQLITE_DB="'' @ DB_PATH w @ ''"\<newline>'']\<close>

definition initialize_db :: "world \<Rightarrow> unit result" where
  "initialize_db w0 =
     (let w = print ''Checking for existing SQLite database ...'' w0;
          db_exists = path_exists DB_NAME w
      in
      and_then (get_conn w) (\<lambda>c w.
      and_then
        (is_schema_up_to_date c
           (if \<not> db_exists then print (''Database will be created at '' @ DB_PATH w) w
            else print (''Database found at '' @ DB_PATH w) w)) (\<lambda>up w.
      and_then
        (if \<not> up
         then and_then (create_tables c (print ''Applying database schema ...'' w)) (\<lambda>_ w.
                (Inr (), print ''Schema created or updated successfully.'' w))
         else (Inr (), print ''Schema already up-to-date.'' w)) (\<lambda>_ w.
      and_then (write_file ''db_connection.txt'' (connection_info w)
                  (print ''Writing connection info ...'' w)) (\<lambda>_ w.
      and_then (makedirs ''db_visualizer'' w) (\<lambda>_ w.
      and_then (write_file ''db_visualizer/sqlite.env'' (visualizer_env w) w) (\<lambda>_ w.
        (Inr (), print (''Location: '' @ DB_PATH w)
                   (print ''Database initialization complete!'' w)))))))))"

section \<open>Notions the properties are stated in\<close>

text \<open>A list of statements run on a database alone: what \<open>execute_all\<close> does to the
  database file, without the world around it.\<close>

fun run_all :: "bool \<Rightarrow> string \<Rightarrow> stmt list \<Rightarrow> database \<Rightarrow> error + database" where
  "run_all fk now [] db = Inr db"
| "run_all fk now (s # ss) db =
     (case run_stmt fk now s db of Inl e \<Rightarrow> Inl e | Inr (db', res) \<Rightarrow> run_all fk now ss db')"

text \<open>A DDL statement is settled in a database when what it would create is there: the
  table, or the index together with its table and no table of the index's name.\<close>

fun settled :: "stmt \<Rightarrow> database \<Rightarrow> bool" where
  "settled (CreateTableIfNotExists n d) db = (map_of (tables db) n \<noteq> None)"
| "settled (CreateIndexIfNotExists i tbl cols) db =
     (map_of (tables db) tbl \<noteq> None \<and> map_of (tables db) i = None \<and> map_of (indices db) i \<noteq> None)"
| "settled s db = True"

definition installed :: "database \<Rightarrow> bool" where
  "installed db = list_all (\<lambda>s. settled s db) ddl_statements"

text \<open>Every table and every index of the first database is in the second, unchanged.\<close>

definition grows :: "database \<Rightarrow> database \<Rightarrow> bool" where
  "grows db db' =
     ((\<forall>m t. map_of (tables db) m = Some t \<longrightarrow> map_of (tables db') m = Some t)
    \<and> (\<forall>j x. map_of (indices db) j = Some x \<longrightarrow> map_of (indices db') j = Some x))"

text \<open>The migrations ledger, what it records, and whether it has the definition that
  create_tables gives it.\<close>

definition ledger :: "database \<Rightarrow> table option" where
  "ledger db = map_of (tables db) ''schema_migrations''"

definition recorded_versions :: "table \<Rightarrow> val list" where
  "recorded_versions t = map (\<lambda>r. cell r ''version'') (rows t)"

definition version_recorded :: "database \<Rightarrow> bool" where
  "version_recorded db =
     (case ledger db of None \<Rightarrow> False | Some t \<Rightarrow> IntV SCHEMA_VERSION \<in> set (recorded_versions t))"

definition ledger_as_created :: "database \<Rightarrow> bool" where
  "ledger_as_created db =
     (case ledger db of None \<Rightarrow> True | Some t \<Rightarrow> tdef t = schema_migrations_ddl)"


text \<open>The rows of the ledger in the database file of a world.\<close>

definition ledger_rows :: "world \<Rightarrow> row list" where
  "ledger_rows w =
     (case database_at DB_NAME w of
        None \<Rightarrow> []
      | Some db \<Rightarrow> (case ledger db of None \<Rightarrow> [] | Some t \<Rightarrow> rows t))"

subsection \<open>Concrete worlds\<close>

definition app_conn :: conn where
  "app_conn = \<lparr>conn_path = DB_NAME, conn_foreign_keys = True\<rparr>"

definition fresh_world :: world where
  "fresh_world = \<lparr>cwd = ''/app'', files = Map.empty, clock = ''2024-01-01 00:00:00'', trace = []\<rparr>"

definition world_with :: "database \<Rightarrow> world" where
  "world_with db = fresh_world\<lparr>files := [DB_NAME \<mapsto> DbFile db]\<rparr>"

text \<open>A database whose schema_migrations table was made elsewhere, with a version column
  that is not a key.\<close>

definition plain_ledger_db :: database where
  "plain_ledger_db =
     \<lparr>tables = [(''schema_migrations'',
                  \<lparr>tdef = \<lparr>columns = [col ''version'' ''INTEGER''], foreign_keys = []\<rparr>,
                   rows = []\<rparr>)],
      indices = []\<rparr>"

text \<open>A database whose schema_migrations table was made elsewhere, with a second column
  that is NOT NULL and has no default.\<close>

definition strict_ledger_db :: database where
  "strict_ledger_db =
     \<lparr>tables = [(''schema_migrations'',
                  \<lparr>tdef = \<lparr>columns = [(col ''version'' ''INTEGER'')\<lparr>col_key := PrimaryKey\<rparr>,
                                       (col ''note'' ''TEXT'')\<lparr>col_not_null := True\<rparr>],
                           foreign_keys = []\<rparr>,
                   rows = []\<rparr>)],
      indices = []\<rparr>"

text \<open>A database with the four application tables as create_tables defines them, one
  user in it, and neither ledger nor indices.\<close>

definition played_db :: database where
  "played_db =
     \<lparr>tables =
        [(''users'', \<lparr>tdef = users_ddl,
                      rows = [[(''id'', IntV 1), (''username'', TextV ''alice''),
                               (''password_hash'', TextV ''x''), (''score'', IntV 3),
                               (''created_at'', TextV ''2023-12-31 10:00:00'')]]\<rparr>),
         (''games'', \<lparr>tdef = games_ddl, rows = []\<rparr>),
         (''moves'', \<lparr>tdef = moves_ddl, rows = []\<rparr>),
         (''scores'', \<lparr>tdef = scores_ddl, rows = [[(''user_id'', IntV 1), (''total_games'', IntV 0),
                               (''wins'', IntV 0), (''losses'', IntV 0), (''draws'', IntV 0)]]\<rparr>)],
      indices = []\<rparr>"

text \<open>A database that holds nothing but a ledger recording version 1.\<close>

definition recorded_db :: database where
  "recorded_db =
     \<lparr>tables = [(''schema_migrations'',
                  \<lparr>tdef = schema_migrations_ddl,
                   rows = [[(''version'', IntV 1), (''applied_at'', TextV ''2023-12-31 10:00:00'')]]\<rparr>)],
      indices = []\<rparr>"

text \<open>A database whose ledger records versions 2 and 3 only.\<close>

definition ahead_db :: database where
  "ahead_db =
     \<lparr>tables = [(''schema_migrations'',
                  \<lparr>tdef = schema_migrations_ddl,
                   rows = [[(''version'', IntV 2), (''applied_at'', TextV ''2023-12-30 09:00:00'')],
                           [(''version'', IntV 3), (''applied_at'', TextV ''2023-12-31 10:00:00'')]]\<rparr>)],
      indices = []\<rparr>"

text \<open>A database whose ledger records version 1 and, after it, version 2.\<close>

definition mixed_db :: database where
  "mixed_db =
     \<lparr>tables = [(''schema_migrations'',
                  \<lparr>tdef = schema_migrations_ddl,
                   rows = [[(''version'', IntV 1), (''applied_at'', TextV ''2023-12-30 09:00:00'')],
                           [(''version'', IntV 2), (''applied_at'', TextV ''2023-12-31 10:00:00'')]]\<rparr>)],
      indices = []\<rparr>"

text \<open>A database whose schema_migrations table was made elsewhere, is empty, and has no
  version column.\<close>

definition versionless_ledger_db :: database where
  "versionless_ledger_db =
     \<lparr>tables = [(''schema_migrations'',
                  \<lparr>tdef = \<lparr>columns = [col ''name'' ''TEXT''], foreign_keys = []\<rparr>, rows = []\<rparr>)],
      indices = []\<rparr>"

text \<open>A database that holds nothing but an empty ledger.\<close>

definition outdated_db :: database where
  "outdated_db =
     \<lparr>tables = [(''schema_migrations'', \<lparr>tdef = schema_migrations_ddl, rows = []\<rparr>)],
      indices = []\<rparr>"

subsection \<open>The steps of a run, read off its trace\<close>

text \<open>The five steps of the initializer. Printing, the pragma, the commit and the making
  of the directory are none of them.\<close>

datatype step = OpenConnection | CheckLedger | ApplyDDL | RecordVersion | WriteMetadata

fun step_of :: "event \<Rightarrow> step list" where
  "step_of (Connect p) = [OpenConnection]"
| "step_of (Execute (SelectMax c t)) = [CheckLedger]"
| "step_of (Execute (CreateTableIfNotExists n d)) = [ApplyDDL]"
| "step_of (Execute (CreateIndexIfNotExists i t cs)) = [ApplyDDL]"
| "step_of (Execute (InsertOrIgnore t vs)) = [RecordVersion]"
| "step_of (OpenWrite p) = [WriteMetadata]"
| "step_of e = []"

definition steps :: "event list \<Rightarrow> step list" where
  "steps tr = concat (map step_of tr)"

fun step_rank :: "step \<Rightarrow> nat" where
  "step_rank OpenConnection = 1"
| "step_rank CheckLedger = 2"
| "step_rank ApplyDDL = 3"
| "step_rank RecordVersion = 4"
| "step_rank WriteMetadata = 5"

text \<open>The statements executed on the connection, in order.\<close>

fun statement_of :: "event \<Rightarrow> stmt list" where
  "statement_of (Execute s) = [s]"
| "statement_of e = []"

definition executed :: "event list \<Rightarrow> stmt list" where
  "executed tr = concat (map statement_of tr)"

text \<open>The paths opened for writing, in order.\<close>

fun opened :: "event \<Rightarrow> string list" where
  "opened (OpenWrite p) = [p]"
| "opened e = []"

definition written :: "event list \<Rightarrow> string list" where
  "written tr = concat (map opened tr)"

subsection \<open>The two halves of initialize_db after the check\<close>

text \<open>The branch on the check (lines 127 to 132) and the writing of the metadata (lines
  134 to 148), named so that they can be reasoned about one at a time;
  \<open>initialize_db\<close> is shown below to be their composition.\<close>

definition apply_schema :: "conn \<Rightarrow> bool \<Rightarrow> world \<Rightarrow> unit result" where
  "apply_schema c up w =
     (if \<not> up
      then and_then (create_tables c (print ''Applying database schema ...'' w)) (\<lambda>_ w.
             (Inr (), print ''Schema created or updated successfully.'' w))
      else (Inr (), print ''Schema already up-to-date.'' w))"

definition write_metadata :: "world \<Rightarrow> unit result" where
  "write_metadata w =
     and_then (write_file ''db_connection.txt'' (connection_info w)
                 (print ''Writing connection info ...'' w)) (\<lambda>_ w.
     and_then (makedirs ''db_visualizer'' w) (\<lambda>_ w.
     and_then (write_file ''db_visualizer/sqlite.env'' (visualizer_env w) w) (\<lambda>_ w.
       (Inr (), print (''Location: '' @ DB_PATH w)
                  (print ''Database initialization complete!'' w)))))"

text \<open>The line printed after the connection is opened.\<close>

definition found_or_created :: "world \<Rightarrow> world \<Rightarrow> world" where
  "found_or_created w0 w =
     (if \<not> path_exists DB_NAME w0 then print (''Database will be created at '' @ DB_PATH w) w
      else print (''Database found at '' @ DB_PATH w) w)"

subsection \<open>What can happen to the rows afterwards\<close>

text \<open>
  init_db.py itself writes no row of games or moves; the application that uses the database
  does. What it can do to the rows is modelled by its widest reading: any statement of the
  kinds above, at any time, and any insertion, update or deletion of a single row that
  passes the NOT NULL, CHECK and key constraints of the table's definition. Foreign keys
  and their cascades only forbid more insertions and cause more deletions of this kind.
  A change that the engine rejects leaves the database as it was.
\<close>

datatype change =
    InsertRow string row
  | UpdateRow string nat row
  | DeleteRow string nat
  | Run bool string stmt

fun apply_change :: "change \<Rightarrow> database \<Rightarrow> database option" where
  "apply_change (InsertRow tbl r) db =
     (case map_of (tables db) tbl of
        None \<Rightarrow> None
      | Some t \<Rightarrow>
          if map fst r = column_names t \<and> \<not> violates t r
          then Some (set_table tbl (t\<lparr>rows := rows t @ [r]\<rparr>) db) else None)"
| "apply_change (UpdateRow tbl i r) db =
     (case map_of (tables db) tbl of
        None \<Rightarrow> None
      | Some t \<Rightarrow>
          if i < length (rows t) \<and> map fst r = column_names t
             \<and> \<not> violates (t\<lparr>rows := take i (rows t) @ drop (Suc i) (rows t)\<rparr>) r
          then Some (set_table tbl (t\<lparr>rows := (rows t)[i := r]\<rparr>) db) else None)"
| "apply_change (DeleteRow tbl i) db =
     (case map_of (tables db) tbl of
        None \<Rightarrow> None
      | Some t \<Rightarrow>
          if i < length (rows t)
          then Some (set_table tbl (t\<lparr>rows := take i (rows t) @ drop (Suc i) (rows t)\<rparr>) db)
          else None)"
| "apply_change (Run fk_on now s) db =
     (case run_stmt fk_on now s db of Inl e \<Rightarrow> None | Inr (db', res) \<Rightarrow> Some db')"

fun apply_changes :: "change list \<Rightarrow> database \<Rightarrow> database" where
  "apply_changes [] db = db"
| "apply_changes (ch # chs) db =
     apply_changes chs (case apply_change ch db of None \<Rightarrow> db | Some db' \<Rightarrow> db')"

definition on_board :: "val \<Rightarrow> bool" where
  "on_board v = (case v of IntV i \<Rightarrow> 0 \<le> i \<and> i \<le> 2 | _ \<Rightarrow> False)"

definition game_status :: "val \<Rightarrow> bool" where
  "game_status v = (v = TextV ''waiting'' \<or> v = TextV ''active'' \<or> v = TextV ''finished'')"

text \<open>The rows of a table of the database, none when the table is not there.\<close>

definition rows_of :: "string \<Rightarrow> database \<Rightarrow> row list" where
  "rows_of tbl db = (case map_of (tables db) tbl of None \<Rightarrow> [] | Some t \<Rightarrow> rows t)"

text \<open>games and moves have the definitions of create_tables and their rows are in range.\<close>

definition board_checked :: "database \<Rightarrow> bool" where
  "board_checked db =
     ((case map_of (tables db) ''moves'' of None \<Rightarrow> False | Some t \<Rightarrow> tdef t = moves_ddl)
    \<and> (case map_of (tables db) ''games'' of None \<Rightarrow> False | Some t \<Rightarrow> tdef t = games_ddl)
    \<and> list_all (\<lambda>r. on_board (cell r ''row'') \<and> on_board (cell r ''col'')) (rows_of ''moves'' db)
    \<and> list_all (\<lambda>r. game_status (cell r ''status'')) (rows_of ''games'' db))"

text \<open>Changes an application might attempt: a move on the board, a move off the board, a
  game with a status of the list, a game with another status, and an INSERT OR IGNORE of
  a move off the board.\<close>

definition move_row :: "int \<Rightarrow> int \<Rightarrow> int \<Rightarrow> row" where
  "move_row i r c =
     [(''id'', IntV i), (''game_id'', IntV 1), (''user_id'', IntV 1), (''row'', IntV r),
      (''col'', IntV c), (''move_num'', IntV i), (''created_at'', TextV ''2024-01-02 08:00:00'')]"

definition game_row :: "int \<Rightarrow> string \<Rightarrow> row" where
  "game_row i st =
     [(''id'', IntV i), (''player_x_id'', IntV 1), (''player_o_id'', IntV 2),
      (''winner_id'', Null), (''status'', TextV st),
      (''started_at'', TextV ''2024-01-02 08:00:00''), (''finished_at'', Null)]"

definition attempted_changes :: "change list" where
  "attempted_changes =
     [InsertRow ''games'' (game_row 1 ''active''),
      InsertRow ''games'' (game_row 2 ''paused''),
      InsertRow ''moves'' (move_row 1 0 2),
      InsertRow ''moves'' (move_row 2 3 1),
      UpdateRow ''moves'' 0 (move_row 1 0 (-1)),
      Run True ''2024-01-02 08:00:01'' (InsertOrIgnore ''moves'' (move_row 3 1 7))]"

section \<open>Statements on the database file\<close>

lemma database_at_files:
  "database_at p w = Some db \<Longrightarrow> \<exists>f. files w p = Some f \<and> f \<noteq> Dir \<and> db_of_node (Some f) = Some db"
  by (auto simp: database_at_def db_of_node_def split: option.splits node.splits if_splits)

lemma execute_on_db:
  assumes "database_at (conn_path c) w = Some db"
  shows "execute c s w =
          (case run_stmt (conn_foreign_keys c) (clock w) s db of
             Inl e \<Rightarrow> (Inl e, log (Execute s) w)
           | Inr (db', res) \<Rightarrow>
               (Inr res, (log (Execute s) w)\<lparr>files := (files w)(conn_path c \<mapsto> DbFile db')\<rparr>))"
proof -
  from database_at_files [OF assms] obtain f where
    f: "files w (conn_path c) = Some f" "f \<noteq> Dir" "db_of_node (Some f) = Some db" by blast
  show ?thesis
    using f by (cases f) (simp_all add: execute_def Let_def log_def split: sum.splits)
qed

lemma execute_no_db:
  "database_at (conn_path c) w = None \<Longrightarrow> \<exists>e. fst (execute c s w) = Inl e"
  by (auto simp: execute_def database_at_def Let_def db_of_node_def split: option.splits node.splits if_splits)

lemma execute_Inr:
  assumes "execute c s w = (Inr res, w')"
  shows "\<exists>db db'. database_at (conn_path c) w = Some db
           \<and> run_stmt (conn_foreign_keys c) (clock w) s db = Inr (db', res)
           \<and> database_at (conn_path c) w' = Some db'
           \<and> trace w' = trace w @ [Execute s] \<and> clock w' = clock w \<and> cwd w' = cwd w
           \<and> (\<forall>q. q \<noteq> conn_path c \<longrightarrow> files w' q = files w q)"
proof (cases "database_at (conn_path c) w")
  case None
  from execute_no_db [OF None, of s] assms show ?thesis by simp
next
  case (Some db)
  show ?thesis
    using assms Some unfolding execute_on_db [OF Some]
    by (auto simp: log_def database_at_def db_of_node_def split: sum.splits)
qed

lemma and_then_Inr:
  "and_then m k = (Inr y, w') \<longleftrightarrow> (\<exists>x w1. m = (Inr x, w1) \<and> k x w1 = (Inr y, w'))"
  by (cases m) (auto simp: and_then_def split: sum.splits)

lemma execute_all_Inr:
  "execute_all c ss w = (Inr u, w') \<Longrightarrow> database_at (conn_path c) w = Some db \<Longrightarrow>
     \<exists>db'. run_all (conn_foreign_keys c) (clock w) ss db = Inr db'
        \<and> database_at (conn_path c) w' = Some db'
        \<and> trace w' = trace w @ map Execute ss \<and> clock w' = clock w \<and> cwd w' = cwd w
        \<and> (\<forall>q. q \<noteq> conn_path c \<longrightarrow> files w' q = files w q)"
proof (induction ss arbitrary: w db)
  case Nil
  then show ?case by simp
next
  case (Cons s ss)
  from Cons.prems(1) obtain res w1 where
    s: "execute c s w = (Inr res, w1)" and rest: "execute_all c ss w1 = (Inr u, w')"
    by (auto simp: and_then_Inr)
  from execute_Inr [OF s] Cons.prems(2) obtain db1 where
    db1: "run_stmt (conn_foreign_keys c) (clock w) s db = Inr (db1, res)"
      "database_at (conn_path c) w1 = Some db1"
      "trace w1 = trace w @ [Execute s]" "clock w1 = clock w" "cwd w1 = cwd w"
      "\<forall>q. q \<noteq> conn_path c \<longrightarrow> files w1 q = files w q"
    by auto
  from Cons.IH [OF rest db1(2)] db1 show ?case by auto
qed

lemma execute_all_run_all:
  "database_at (conn_path c) w = Some db \<Longrightarrow>
   run_all (conn_foreign_keys c) (clock w) ss db = Inr db' \<Longrightarrow>
     \<exists>w'. execute_all c ss w = (Inr (), w')"
proof (induction ss arbitrary: w db)
  case Nil
  then show ?case by simp
next
  case (Cons s ss)
  from Cons.prems(2) obtain db1 res where
    s: "run_stmt (conn_foreign_keys c) (clock w) s db = Inr (db1, res)"
    and rest: "run_all (conn_foreign_keys c) (clock w) ss db1 = Inr db'"
    by (auto split: sum.splits)
  let ?w1 = "(log (Execute s) w)\<lparr>files := (files w)(conn_path c \<mapsto> DbFile db1)\<rparr>"
  have e: "execute c s w = (Inr res, ?w1)"
    by (simp add: execute_on_db [OF Cons.prems(1)] s)
  have "database_at (conn_path c) ?w1 = Some db1" "clock ?w1 = clock w"
    by (simp_all add: database_at_def db_of_node_def log_def)
  with Cons.IH [of ?w1 db1] rest obtain w' where "execute_all c ss ?w1 = (Inr (), w')"
    by auto
  with e show ?case by (simp add: and_then_def)
qed

lemma execute_all_append:
  "execute_all c (xs @ ys) w = and_then (execute_all c xs w) (\<lambda>_. execute_all c ys)"
proof (induction xs arbitrary: w)
  case Nil
  then show ?case by (simp add: and_then_def)
next
  case (Cons x xs)
  then show ?case
    by (cases "execute c x w") (auto simp: and_then_def split: sum.splits)
qed

lemma create_tables_eq:
  "create_tables c w =
     and_then (execute_all c (ddl_statements @ [record_version]) w) (\<lambda>_. commit c)"
  unfolding create_tables_def execute_all_append
  by (cases "execute_all c ddl_statements w")
     (auto simp: and_then_def split: sum.splits prod.splits)

lemma create_tables_Inr:
  assumes "create_tables c w = (Inr u, w')"
  shows "\<exists>db db'. database_at (conn_path c) w = Some db
           \<and> run_all (conn_foreign_keys c) (clock w) (ddl_statements @ [record_version]) db = Inr db'
           \<and> database_at (conn_path c) w' = Some db'
           \<and> trace w' = trace w @ map Execute (ddl_statements @ [record_version]) @ [Commit]
           \<and> clock w' = clock w \<and> cwd w' = cwd w
           \<and> (\<forall>q. q \<noteq> conn_path c \<longrightarrow> files w' q = files w q)"
proof -
  from assms obtain w1 where
    a: "execute_all c (ddl_statements @ [record_version]) w = (Inr (), w1)"
    and w': "w' = log Commit w1"
    by (auto simp: create_tables_eq and_then_Inr commit_def)
  have "\<exists>db. database_at (conn_path c) w = Some db"
  proof (cases "database_at (conn_path c) w")
    case None
    from execute_no_db [OF None, of "hd ddl_statements"] obtain e where
      "fst (execute c (hd ddl_statements) w) = Inl e" ..
    with a show ?thesis
      by (cases "execute c (hd ddl_statements) w") (simp add: ddl_statements_def and_then_def)
  qed simp
  then obtain db where db: "database_at (conn_path c) w = Some db" ..
  from execute_all_Inr [OF a db] w' db show ?thesis
    by (auto simp: log_def database_at_def)
qed

lemma create_tables_run_all:
  assumes "database_at (conn_path c) w = Some db"
    and "run_all (conn_foreign_keys c) (clock w) (ddl_statements @ [record_version]) db = Inr db'"
  shows "\<exists>w'. create_tables c w = (Inr (), w')"
proof -
  from execute_all_run_all [OF assms] obtain w1 where
    "execute_all c (ddl_statements @ [record_version]) w = (Inr (), w1)" ..
  then show ?thesis by (simp add: create_tables_eq and_then_def commit_def)
qed

lemma grows_refl: "grows db db"
  by (simp add: grows_def)

lemma grows_trans: "grows a b \<Longrightarrow> grows b c \<Longrightarrow> grows a c"
  by (simp add: grows_def)

lemma create_table_Inr:
  assumes "create_table_if_not_exists n d db = Inr db'"
  shows "map_of (tables db') n \<noteq> None" "indices db' = indices db" "grows db db'"
    "m \<noteq> n \<Longrightarrow> map_of (tables db') m = map_of (tables db) m"
    "map_of (tables db) n = None \<Longrightarrow> map_of (tables db') n = Some \<lparr>tdef = d, rows = []\<rparr>"
  using assms
  by (auto simp: create_table_if_not_exists_def grows_def map_add_def split: if_splits option.splits)

lemma create_index_Inr:
  assumes "create_index_if_not_exists i tbl cols db = Inr db'"
  shows "tables db' = tables db" "map_of (indices db') i \<noteq> None" "map_of (tables db) i = None"
    "map_of (tables db) tbl \<noteq> None" "grows db db'"
    "j \<noteq> i \<Longrightarrow> map_of (indices db') j = map_of (indices db) j"
  using assms
  by (auto simp: create_index_if_not_exists_def grows_def map_add_def
      split: if_splits option.splits list.splits)

lemma settled_no_op:
  "settled s db \<Longrightarrow> s \<in> set ddl_statements \<Longrightarrow> run_stmt fk now s db = Inr (db, [])"
  by (auto simp: ddl_statements_def create_table_if_not_exists_def create_index_if_not_exists_def)

lemma map_sum_Inr: "(map_sum id f x = Inr y) = (\<exists>z. x = Inr z \<and> y = f z)"
  by (cases x) auto

lemma table_step:
  assumes "create_table_if_not_exists n d db = Inr db'"
  shows "settled (CreateTableIfNotExists n d) db'"
    "settled (CreateTableIfNotExists n' d') db \<Longrightarrow> settled (CreateTableIfNotExists n' d') db'"
    "i \<noteq> n \<Longrightarrow> settled (CreateIndexIfNotExists i tbl cols) db \<Longrightarrow> settled (CreateIndexIfNotExists i tbl cols) db'"
  using create_table_Inr [OF assms] by (auto simp: grows_def)

lemma index_step:
  assumes "create_index_if_not_exists i tbl cols db = Inr db'"
  shows "settled (CreateIndexIfNotExists i tbl cols) db'"
    "settled (CreateTableIfNotExists n' d') db \<Longrightarrow> settled (CreateTableIfNotExists n' d') db'"
    "settled (CreateIndexIfNotExists i' tbl' cols') db \<Longrightarrow> settled (CreateIndexIfNotExists i' tbl' cols') db'"
  using create_index_Inr [OF assms] by (auto simp: grows_def)

lemma ddl_step:
  assumes "run_stmt fk now s db = Inr (db', res)" and "s \<in> set ddl_statements"
  shows "settled s db'" "grows db db'"
    "s' \<in> set ddl_statements \<Longrightarrow> settled s' db \<Longrightarrow> settled s' db'"
proof -
  show "settled s db'"
    using assms
    by (auto simp: ddl_statements_def map_sum_Inr simp del: settled.simps
        dest: table_step(1) index_step(1))
  show "grows db db'"
    using assms
    by (auto simp: ddl_statements_def map_sum_Inr dest: create_table_Inr(3) create_index_Inr(5))
  show "settled s' db'" if "s' \<in> set ddl_statements" "settled s' db"
  proof (cases s)
    case (CreateTableIfNotExists n d)
    with assms have r: "create_table_if_not_exists n d db = Inr db'" by (auto simp: map_sum_Inr)
    from assms(2) CreateTableIfNotExists
    have n: "n \<in> {''schema_migrations'', ''users'', ''games'', ''moves'', ''scores''}"
      by (auto simp: ddl_statements_def)
    from that(1) consider n' d' where "s' = CreateTableIfNotExists n' d'"
      | i tbl cols where "s' = CreateIndexIfNotExists i tbl cols"
          "i \<in> {''idx_users_username'', ''idx_games_status'', ''idx_moves_gameid''}"
      by (auto simp: ddl_statements_def)
    then show ?thesis
    proof cases
      case 1
      with table_step(2) [OF r] that(2) show ?thesis by blast
    next
      case 2
      with n have "i \<noteq> n" by auto
      with table_step(3) [OF r] that(2) 2 show ?thesis by blast
    qed
  next
    case (CreateIndexIfNotExists i tbl cols)
    with assms have r: "create_index_if_not_exists i tbl cols db = Inr db'"
      by (auto simp: map_sum_Inr)
    from that(1) consider n' d' where "s' = CreateTableIfNotExists n' d'"
      | i' tbl' cols' where "s' = CreateIndexIfNotExists i' tbl' cols'"
      by (auto simp: ddl_statements_def)
    then show ?thesis
      using index_step(2,3) [OF r] that(2) by cases blast+
  qed (use assms in \<open>auto simp: ddl_statements_def\<close>)
qed

lemma run_all_ddl:
  assumes "run_all fk now ss db = Inr db'" and "set ss \<subseteq> set ddl_statements"
  shows "list_all (\<lambda>s. settled s db') ss \<and> grows db db'
       \<and> (\<forall>s' \<in> set ddl_statements. settled s' db \<longrightarrow> settled s' db')"
  using assms
proof (induction ss arbitrary: db)
  case Nil
  then show ?case by (simp add: grows_refl)
next
  case (Cons s ss)
  from Cons.prems(1) obtain db1 res where
    s: "run_stmt fk now s db = Inr (db1, res)" and rest: "run_all fk now ss db1 = Inr db'"
    by (auto split: sum.splits)
  from Cons.prems(2) have mem: "s \<in> set ddl_statements" "set ss \<subseteq> set ddl_statements" by auto
  note step = ddl_step [OF s mem(1)]
  from Cons.IH [OF rest mem(2)] have
    ih: "list_all (\<lambda>s. settled s db') ss" "grows db1 db'"
      "\<forall>s' \<in> set ddl_statements. settled s' db1 \<longrightarrow> settled s' db'"
    by auto
  from step(1) ih(3) mem(1) have "settled s db'" by blast
  moreover from step(2) ih(2) have "grows db db'" by (rule grows_trans)
  moreover from step(3) ih(3) have "\<forall>s' \<in> set ddl_statements. settled s' db \<longrightarrow> settled s' db'"
    by blast
  ultimately show ?case using ih(1) by simp
qed

lemma ddl_installs:
  "run_all fk now ddl_statements db = Inr db' \<Longrightarrow> installed db' \<and> grows db db'"
  using run_all_ddl [of fk now ddl_statements db db'] by (simp add: installed_def)

lemma installed_no_op:
  assumes "list_all (\<lambda>s. settled s db) ss" and "set ss \<subseteq> set ddl_statements"
  shows "run_all fk now ss db = Inr db"
  using assms by (induction ss) (auto simp: settled_no_op)

lemma installed_run_all: "installed db \<Longrightarrow> run_all fk now ddl_statements db = Inr db"
  by (simp add: installed_def installed_no_op)

lemma map_of_set_table:
  "map_of (tables (set_table n t db)) m =
     (if m = n \<and> map_of (tables db) m \<noteq> None then Some t else map_of (tables db) m)"
proof -
  have "map_of (map (\<lambda>(k, t'). if k = n then (k, t) else (k, t')) xs) m =
          (if m = n \<and> map_of xs m \<noteq> None then Some t else map_of xs m)" for xs
    by (induction xs) auto
  then show ?thesis by (simp add: set_table_def)
qed

lemma indices_set_table: "indices (set_table n t db) = indices db"
  by (simp add: set_table_def)

lemma insert_Inr:
  assumes "insert_or_ignore fk now tbl vals db = Inr db'"
  shows "indices db' = indices db"
    "m \<noteq> tbl \<Longrightarrow> map_of (tables db') m = map_of (tables db) m"
    "(map_of (tables db') m = None) = (map_of (tables db) m = None)"
  using assms
  by (auto simp: insert_or_ignore_def Let_def map_of_set_table indices_set_table
      split: option.splits list.splits if_splits)

lemma settled_cong:
  assumes "indices db' = indices db"
    and "\<And>m. (map_of (tables db') m = None) = (map_of (tables db) m = None)"
  shows "settled s db' = settled s db"
  using assms by (cases s) auto

lemma record_version_created:
  assumes "ledger db = Some t" and "tdef t = schema_migrations_ddl"
  shows "insert_or_ignore fk now ''schema_migrations'' [(''version'', IntV SCHEMA_VERSION)] db =
          Inr (if IntV SCHEMA_VERSION \<in> set (recorded_versions t) then db
               else set_table ''schema_migrations''
                      (t\<lparr>rows := rows t @ [[(''version'', IntV SCHEMA_VERSION), (''applied_at'', TextV now)]]\<rparr>) db)"
proof -
  have nr: "new_row now t [(''version'', IntV SCHEMA_VERSION)] =
          [(''version'', IntV SCHEMA_VERSION), (''applied_at'', TextV now)]"
    using assms(2)
    by (simp add: new_row_def schema_migrations_ddl_def col_def default_value_def is_rowid_alias_def)
  have dm: "\<not> datatype_mismatch t [(''version'', IntV SCHEMA_VERSION), (''applied_at'', TextV now)]"
    using assms(2)
    by (simp add: datatype_mismatch_def schema_migrations_ddl_def col_def is_rowid_alias_def cell_def)
  have vi: "violates t [(''version'', IntV SCHEMA_VERSION), (''applied_at'', TextV now)]
          = (IntV SCHEMA_VERSION \<in> set (recorded_versions t))"
  proof -
    let ?r = "[(''version'', IntV SCHEMA_VERSION), (''applied_at'', TextV now)]"
    have c: "cell ?r ''version'' = IntV SCHEMA_VERSION" "cell ?r ''applied_at'' = TextV now"
      by (simp_all add: cell_def)
    show ?thesis
      using assms(2)
      by (force simp: violates_def schema_migrations_ddl_def col_def is_key_def c
          recorded_versions_def)
  qed
  have cn: "column_names t = [''version'', ''applied_at'']"
    using assms(2) by (simp add: column_names_def schema_migrations_ddl_def col_def)
  have fk: "foreign_keys (tdef t) = []"
    using assms(2) by (simp add: schema_migrations_ddl_def)
  show ?thesis
    using assms(1) by (simp add: insert_or_ignore_def ledger_def Let_def nr dm vi cn fk)
qed

lemma run_all_append:
  "run_all fk now (xs @ ys) db =
     (case run_all fk now xs db of Inl e \<Rightarrow> Inl e | Inr db1 \<Rightarrow> run_all fk now ys db1)"
  by (induction xs arbitrary: db) (auto split: sum.splits)

lemma schema_run:
  "run_all fk now (ddl_statements @ [record_version]) db = Inr db' \<longleftrightarrow>
     (\<exists>db1. run_all fk now ddl_statements db = Inr db1
        \<and> insert_or_ignore fk now ''schema_migrations'' [(''version'', IntV SCHEMA_VERSION)] db1 = Inr db')"
  by (auto simp: run_all_append record_version_def map_sum_Inr split: sum.splits)

lemma ddl_creates_ledger:
  assumes "run_all fk now ddl_statements db = Inr db1" and "ledger_as_created db"
  shows "\<exists>t. ledger db1 = Some t \<and> tdef t = schema_migrations_ddl
           \<and> (case ledger db of None \<Rightarrow> rows t = [] | Some t0 \<Rightarrow> t = t0)"
proof (cases "ledger db")
  case (Some t0)
  from ddl_installs [OF assms(1)] Some have "ledger db1 = Some t0"
    by (simp add: grows_def ledger_def)
  with Some assms(2) show ?thesis by (simp add: ledger_as_created_def)
next
  case None
  from assms(1) obtain d1 where
    first: "create_table_if_not_exists ''schema_migrations'' schema_migrations_ddl db = Inr d1"
    and rest: "run_all fk now (tl ddl_statements) d1 = Inr db1"
    by (auto simp: ddl_statements_def map_sum_Inr split: sum.splits)
  from create_table_Inr(5) [OF first] None
  have "map_of (tables d1) ''schema_migrations'' = Some \<lparr>tdef = schema_migrations_ddl, rows = []\<rparr>"
    by (simp add: ledger_def)
  moreover have "grows d1 db1"
    using run_all_ddl [OF rest] by (simp add: ddl_statements_def)
  ultimately have "ledger db1 = Some \<lparr>tdef = schema_migrations_ddl, rows = []\<rparr>"
    by (simp add: grows_def ledger_def)
  with None show ?thesis by simp
qed

lemma ledger_set_table:
  "ledger db \<noteq> None \<Longrightarrow> ledger (set_table ''schema_migrations'' t db) = Some t"
  by (simp add: ledger_def map_of_set_table)

text \<open>What a successful pass of the script's statements leaves behind.\<close>
lemma schema_run_result:
  assumes "run_all fk now (ddl_statements @ [record_version]) db = Inr db'"
    and "ledger_as_created db"
  shows "installed db'" "ledger_as_created db'" "version_recorded db'"
proof -
  from assms(1) obtain db1 where
    ddl: "run_all fk now ddl_statements db = Inr db1"
    and ins: "insert_or_ignore fk now ''schema_migrations'' [(''version'', IntV SCHEMA_VERSION)] db1 = Inr db'"
    by (auto simp: schema_run)
  from ddl_installs [OF ddl] have "installed db1" ..
  with settled_cong [OF insert_Inr(1) [OF ins] insert_Inr(3) [OF ins]]
  show "installed db'" by (simp add: installed_def)
  from ddl_creates_ledger [OF ddl assms(2)] obtain t where
    t: "ledger db1 = Some t" "tdef t = schema_migrations_ddl" by blast
  from ins record_version_created [OF t, of fk now]
  have db': "db' = (if IntV SCHEMA_VERSION \<in> set (recorded_versions t) then db1
               else set_table ''schema_migrations''
                      (t\<lparr>rows := rows t @ [[(''version'', IntV SCHEMA_VERSION), (''applied_at'', TextV now)]]\<rparr>) db1)"
    by simp
  show "ledger_as_created db'"
    using t by (simp add: db' ledger_as_created_def ledger_set_table)
  show "version_recorded db'"
    using t by (simp add: db' version_recorded_def ledger_set_table recorded_versions_def cell_def)
qed

lemma schema_run_again:
  assumes "installed db" "ledger_as_created db" "version_recorded db"
  shows "run_all fk now (ddl_statements @ [record_version]) db = Inr db"
proof -
  from assms(3) obtain t where t: "ledger db = Some t" "IntV SCHEMA_VERSION \<in> set (recorded_versions t)"
    by (auto simp: version_recorded_def split: option.splits)
  with assms(2) have "tdef t = schema_migrations_ddl" by (simp add: ledger_as_created_def)
  from record_version_created [OF t(1) this, of fk now] t(2) installed_run_all [OF assms(1), of fk now]
  show ?thesis by (auto simp: schema_run)
qed

section \<open>create_tables\<close>

text \<open>
  C3, as amended. On a database whose schema_migrations table is absent or has the
  definition create_tables gives it, a run of create_tables that succeeds can be followed
  at once by a second run, at any clock reading: the second run succeeds too and leaves
  the database (tables, indices and rows) as the first run left it.
\<close>

theorem create_tables_idempotent:
  assumes "create_tables c w = (Inr (), w')"
    and "database_at (conn_path c) w = Some db"
    and "ledger_as_created db"
  shows "fst (create_tables c (w'\<lparr>clock := t\<rparr>)) = Inr ()
       \<and> database_at (conn_path c) (snd (create_tables c (w'\<lparr>clock := t\<rparr>)))
           = database_at (conn_path c) w'"
proof -
  let ?p = "conn_path c" and ?fk = "conn_foreign_keys c"
  let ?ss = "ddl_statements @ [record_version]"
  from create_tables_Inr [OF assms(1)] assms(2) obtain db' where
    run: "run_all ?fk (clock w) ?ss db = Inr db'" and at: "database_at ?p w' = Some db'"
    by auto
  note res = schema_run_result [OF run assms(3)]
  have again: "run_all ?fk t ?ss db' = Inr db'"
    by (rule schema_run_again [OF res])
  have at2: "database_at ?p (w'\<lparr>clock := t\<rparr>) = Some db'"
    using at by (simp add: database_at_def)
  from create_tables_run_all [OF at2] again obtain w'' where
    w'': "create_tables c (w'\<lparr>clock := t\<rparr>) = (Inr (), w'')" by auto
  from create_tables_Inr [OF w''] at2 again have "database_at ?p w'' = Some db'" by auto
  with w'' at show ?thesis by simp
qed

theorem create_tables_idempotent_witness:
  "ledger_as_created empty_db
   \<and> fst (create_tables app_conn (world_with empty_db)) = Inr ()
   \<and> fst (create_tables app_conn ((snd (create_tables app_conn (world_with empty_db)))\<lparr>clock := ''later''\<rparr>)) = Inr ()
   \<and> database_at DB_NAME (snd (create_tables app_conn
         ((snd (create_tables app_conn (world_with empty_db)))\<lparr>clock := ''later''\<rparr>)))
       = database_at DB_NAME (snd (create_tables app_conn (world_with empty_db)))"
proof -
  have a: "ledger_as_created empty_db"
    by (simp add: ledger_as_created_def ledger_def empty_db_def)
  have b: "fst (create_tables app_conn (world_with empty_db)) = Inr ()"
    by code_simp
  have c: "database_at (conn_path app_conn) (world_with empty_db) = Some empty_db"
    by (simp add: database_at_def db_of_node_def world_with_def app_conn_def)
  have d: "create_tables app_conn (world_with empty_db)
        = (Inr (), snd (create_tables app_conn (world_with empty_db)))"
    using b by (simp add: prod_eq_iff)
  have e: "conn_path app_conn = DB_NAME" by (simp add: app_conn_def)
  from create_tables_idempotent [OF d c a, of "''later''"] a b show ?thesis
    by (simp add: e)
qed

text \<open>
  C3 as stated fails where schema_migrations exists already with a version column that is
  not a key: CREATE TABLE IF NOT EXISTS keeps that table, both runs succeed, and each
  INSERT OR IGNORE adds a row.
\<close>

theorem create_tables_not_idempotent:
  "fst (create_tables app_conn (world_with plain_ledger_db)) = Inr ()
   \<and> fst (create_tables app_conn (snd (create_tables app_conn (world_with plain_ledger_db)))) = Inr ()
   \<and> length (ledger_rows (snd (create_tables app_conn (world_with plain_ledger_db)))) = 1
   \<and> length (ledger_rows (snd (create_tables app_conn
        (snd (create_tables app_conn (world_with plain_ledger_db)))))) = 2"
  by code_simp

text \<open>
  C4, as amended. On a database whose schema_migrations table is absent or has the
  definition create_tables gives it, every successful run of create_tables leaves a row in
  schema_migrations whose version is SCHEMA_VERSION.
\<close>

theorem create_tables_records_version:
  assumes "create_tables c w = (Inr (), w')"
    and "database_at (conn_path c) w = Some db"
    and "ledger_as_created db"
  shows "\<exists>db' l. database_at (conn_path c) w' = Some db' \<and> ledger db' = Some l
           \<and> (\<exists>r \<in> set (rows l). cell r ''version'' = IntV SCHEMA_VERSION)"
proof -
  from create_tables_Inr [OF assms(1)] assms(2) obtain db' where
    run: "run_all (conn_foreign_keys c) (clock w) (ddl_statements @ [record_version]) db = Inr db'"
    and at: "database_at (conn_path c) w' = Some db'"
    by auto
  from schema_run_result(3) [OF run assms(3)] at show ?thesis
    by (auto simp: version_recorded_def recorded_versions_def split: option.splits)
qed

theorem create_tables_records_version_witness:
  "ledger_as_created played_db
   \<and> fst (create_tables app_conn (world_with played_db)) = Inr ()
   \<and> (\<exists>db' l. database_at DB_NAME (snd (create_tables app_conn (world_with played_db))) = Some db'
         \<and> ledger db' = Some l
         \<and> (\<exists>r \<in> set (rows l). cell r ''version'' = IntV SCHEMA_VERSION))"
proof -
  have a: "ledger_as_created played_db"
    by (simp add: ledger_as_created_def ledger_def played_db_def)
  have b: "fst (create_tables app_conn (world_with played_db)) = Inr ()"
    by code_simp
  have c: "database_at (conn_path app_conn) (world_with played_db) = Some played_db"
    by (simp add: database_at_def db_of_node_def world_with_def app_conn_def)
  have d: "create_tables app_conn (world_with played_db)
        = (Inr (), snd (create_tables app_conn (world_with played_db)))"
    using b by (simp add: prod_eq_iff)
  have e: "conn_path app_conn = DB_NAME" by (simp add: app_conn_def)
  from create_tables_records_version [OF d c a] a b show ?thesis
    by (simp add: e)
qed

text \<open>
  C4 as stated fails where schema_migrations exists already with a further column that is
  NOT NULL and has no default: the run succeeds, INSERT OR IGNORE skips the row, and the
  ledger stays empty.
\<close>

theorem create_tables_version_skipped:
  "fst (create_tables app_conn (world_with strict_ledger_db)) = Inr ()
   \<and> ledger_rows (snd (create_tables app_conn (world_with strict_ledger_db))) = []"
  by code_simp

text \<open>
  C7. When users, games, moves and scores exist already, a successful run of create_tables
  leaves each of them as it was, definition and rows, and keeps every index that existed.
\<close>

theorem create_tables_keeps_existing:
  assumes "create_tables c w = (Inr (), w')"
    and "database_at (conn_path c) w = Some db"
    and "map_of (tables db) ''users'' = Some u"
    and "map_of (tables db) ''games'' = Some g"
    and "map_of (tables db) ''moves'' = Some m"
    and "map_of (tables db) ''scores'' = Some s"
  shows "\<exists>db'. database_at (conn_path c) w' = Some db'
           \<and> map_of (tables db') ''users'' = Some u
           \<and> map_of (tables db') ''games'' = Some g
           \<and> map_of (tables db') ''moves'' = Some m
           \<and> map_of (tables db') ''scores'' = Some s
           \<and> (\<forall>i x. map_of (indices db) i = Some x \<longrightarrow> map_of (indices db') i = Some x)"
proof -
  from create_tables_Inr [OF assms(1)] assms(2) obtain db' where
    run: "run_all (conn_foreign_keys c) (clock w) (ddl_statements @ [record_version]) db = Inr db'"
    and at: "database_at (conn_path c) w' = Some db'"
    by auto
  from run obtain db1 where
    ddl: "run_all (conn_foreign_keys c) (clock w) ddl_statements db = Inr db1"
    and ins: "insert_or_ignore (conn_foreign_keys c) (clock w) ''schema_migrations''
                [(''version'', IntV SCHEMA_VERSION)] db1 = Inr db'"
    by (auto simp: schema_run)
  from ddl_installs [OF ddl] have g1: "grows db db1" ..
  have keep: "map_of (tables db') n = Some t"
    if "map_of (tables db) n = Some t" "n \<noteq> ''schema_migrations''" for n t
    using that g1 insert_Inr(2) [OF ins, of n] by (simp add: grows_def)
  have "map_of (indices db') i = Some x" if "map_of (indices db) i = Some x" for i x
    using that g1 insert_Inr(1) [OF ins] by (cases x) (simp add: grows_def)
  with at keep [OF assms(3)] keep [OF assms(4)] keep [OF assms(5)] keep [OF assms(6)]
  show ?thesis by simp
qed

theorem create_tables_keeps_existing_witness:
  "fst (create_tables app_conn (world_with played_db)) = Inr ()
   \<and> (\<exists>db'. database_at DB_NAME (snd (create_tables app_conn (world_with played_db))) = Some db'
         \<and> map_of (tables db') ''users'' = map_of (tables played_db) ''users''
         \<and> map_of (tables db') ''games'' = Some \<lparr>tdef = games_ddl, rows = []\<rparr>
         \<and> map_of (tables db') ''moves'' = Some \<lparr>tdef = moves_ddl, rows = []\<rparr>
         \<and> map_of (tables db') ''scores'' = map_of (tables played_db) ''scores'')"
proof -
  have b: "fst (create_tables app_conn (world_with played_db)) = Inr ()"
    by code_simp
  have c: "database_at (conn_path app_conn) (world_with played_db) = Some played_db"
    by (simp add: database_at_def db_of_node_def world_with_def app_conn_def)
  have d: "create_tables app_conn (world_with played_db)
        = (Inr (), snd (create_tables app_conn (world_with played_db)))"
    using b by (simp add: prod_eq_iff)
  have e: "conn_path app_conn = DB_NAME" by (simp add: app_conn_def)
  have t: "map_of (tables played_db) ''users'' = Some (the (map_of (tables played_db) ''users''))"
    "map_of (tables played_db) ''games'' = Some \<lparr>tdef = games_ddl, rows = []\<rparr>"
    "map_of (tables played_db) ''moves'' = Some \<lparr>tdef = moves_ddl, rows = []\<rparr>"
    "map_of (tables played_db) ''scores'' = Some (the (map_of (tables played_db) ''scores''))"
    by (simp_all add: played_db_def)
  from create_tables_keeps_existing [OF d c t] b show ?thesis
    by (auto simp: e t(1) [symmetric] t(4) [symmetric])
qed





section \<open>is_schema_up_to_date\<close>

lemma max_val_ints_from:
  "fold (\<lambda>v m. if val_le v m then m else v) (map IntV vs) (IntV m) = IntV (fold max vs m)"
  by (induction vs arbitrary: m) (auto simp: max_def)

lemma max_val_ints:
  "max_val (map IntV vs) = (if vs = [] then Null else IntV (Max (set vs)))"
proof (cases vs)
  case Nil
  then show ?thesis by (simp add: max_val_def)
next
  case (Cons v vs')
  have "fold max vs' v = Max (set (v # vs'))"
    by (simp only: Max.set_eq_fold)
  with Cons show ?thesis
    by (simp add: max_val_def max_val_ints_from)
qed

lemma is_schema_up_to_date_value:
  assumes "database_at (conn_path c) w = Some db" and "ledger db = Some l"
    and "''version'' \<in> set (column_names l)"
  shows "fst (is_schema_up_to_date c w) = Inr (max_val (recorded_versions l) = IntV SCHEMA_VERSION)"
  using assms(2,3)
  by (simp add: is_schema_up_to_date_def execute_on_db [OF assms(1)] select_max_def ledger_def
      and_then_def fetchone_def recorded_versions_def)

section \<open>initialize_db\<close>

lemma trace_execute: "trace (snd (execute c s w)) = trace w @ [Execute s]"
  by (simp add: execute_def Let_def log_def split: option.splits node.splits sum.splits prod.splits)

lemma trace_write_file: "trace (snd (write_file p xs w)) = trace w @ [OpenWrite p]"
  by (simp add: write_file_def Let_def log_def split: option.splits node.splits)

lemma trace_makedirs: "trace (snd (makedirs p w)) = trace w @ [MakeDirs p]"
  by (simp add: makedirs_def Let_def log_def split: option.splits node.splits)

lemma trace_get_conn:
  "trace (snd (get_conn w)) =
     trace w @ (case fst (get_conn w) of Inl e \<Rightarrow> [Connect DB_NAME]
                | Inr c \<Rightarrow> [Connect DB_NAME, Execute PragmaForeignKeysOn])"
  by (simp add: get_conn_def connect_def and_then_def set_foreign_keys_on_def Let_def log_def
      split: option.splits node.splits)

lemma trace_execute_all:
  "\<exists>k \<le> length ss. trace (snd (execute_all c ss w)) = trace w @ map Execute (take k ss)
      \<and> (ss \<noteq> [] \<longrightarrow> 0 < k)"
proof (induction ss arbitrary: w)
  case Nil
  then show ?case by simp
next
  case (Cons s ss)
  obtain r w1 where e: "execute c s w = (r, w1)" by (cases "execute c s w")
  with trace_execute [of c s w] have t1: "trace w1 = trace w @ [Execute s]" by simp
  show ?case
  proof (cases r)
    case (Inl err)
    with e t1 have "trace (snd (execute_all c (s # ss) w)) = trace w @ map Execute (take 1 (s # ss))"
      by (simp add: and_then_def)
    then show ?thesis by (intro exI [of _ 1]) simp
  next
    case (Inr res)
    from Cons.IH [of w1] obtain k where
      k: "k \<le> length ss" "trace (snd (execute_all c ss w1)) = trace w1 @ map Execute (take k ss)"
      by blast
    with e Inr t1
    have "trace (snd (execute_all c (s # ss) w)) = trace w @ map Execute (take (Suc k) (s # ss))"
      by (simp add: and_then_def)
    with k(1) show ?thesis by (intro exI [of _ "Suc k"]) simp
  qed
qed

lemma trace_create_tables:
  "\<exists>k es. trace (snd (create_tables c w)) =
            trace w @ map Execute (take k (ddl_statements @ [record_version])) @ es
     \<and> 0 < k \<and> set es \<subseteq> {Commit}"
proof -
  let ?ss = "ddl_statements @ [record_version]"
  from trace_execute_all [of ?ss c w] obtain k where
    k: "trace (snd (execute_all c ?ss w)) = trace w @ map Execute (take k ?ss)" "0 < k"
    by (auto simp: ddl_statements_def)
  obtain r w1 where e: "execute_all c ?ss w = (r, w1)" by (cases "execute_all c ?ss w")
  show ?thesis
  proof (cases r)
    case (Inl err)
    with e k have "trace (snd (create_tables c w)) = trace w @ map Execute (take k ?ss) @ []"
      by (simp add: create_tables_eq and_then_def)
    with k(2) show ?thesis by (intro exI [of _ k] exI [of _ "[]"]) simp
  next
    case (Inr u)
    with e k have "trace (snd (create_tables c w)) = trace w @ map Execute (take k ?ss) @ [Commit]"
      by (simp add: create_tables_eq and_then_def commit_def log_def)
    with k(2) show ?thesis by (intro exI [of _ k] exI [of _ "[Commit]"]) simp
  qed
qed

lemma steps_append: "steps (xs @ ys) = steps xs @ steps ys"
  by (simp add: steps_def)

lemma steps_schema:
  "steps (map Execute (take k (ddl_statements @ [record_version]))) =
     replicate (min k 8) ApplyDDL @ (if 8 < k then [RecordVersion] else [])"
proof -
  have "k = 0 \<or> k = 1 \<or> k = 2 \<or> k = 3 \<or> k = 4 \<or> k = 5 \<or> k = 6 \<or> k = 7 \<or> k = 8 \<or> 8 < k"
    by arith
  then show ?thesis
    by (elim disjE)
       (simp_all add: steps_def ddl_statements_def record_version_def numeral_eq_Suc)
qed

lemma print_simps [simp]:
  "trace (print s w) = trace w @ [Print s]" "files (print s w) = files w"
  "cwd (print s w) = cwd w" "clock (print s w) = clock w"
  "database_at p (print s w) = database_at p w" "DB_PATH (print s w) = DB_PATH w"
  by (simp_all add: print_def log_def database_at_def DB_PATH_def)

lemma found_or_created_simps [simp]:
  "files (found_or_created w0 w) = files w"
  "cwd (found_or_created w0 w) = cwd w" "clock (found_or_created w0 w) = clock w"
  "database_at p (found_or_created w0 w) = database_at p w"
  "steps (trace (found_or_created w0 w)) = steps (trace w)"
  "written (trace (found_or_created w0 w)) = written (trace w)"
  by (simp_all add: found_or_created_def steps_def written_def)

lemma initialize_db_parts:
  "initialize_db w0 =
     and_then (get_conn (print ''Checking for existing SQLite database ...'' w0)) (\<lambda>c w.
     and_then (is_schema_up_to_date c (found_or_created w0 w)) (\<lambda>up w.
     and_then (apply_schema c up w) (\<lambda>_. write_metadata)))"
proof -
  have "path_exists DB_NAME (print s w0) = path_exists DB_NAME w0" for s
    by (simp add: path_exists_def)
  then show ?thesis
    unfolding initialize_db_def Let_def apply_schema_def [abs_def] write_metadata_def [abs_def]
      found_or_created_def [abs_def]
    by simp
qed

lemma write_file_Inr:
  assumes "write_file p xs w = (Inr u, w')"
  shows "files w' = (files w)(p \<mapsto> TextFile (concat xs))" "trace w' = trace w @ [OpenWrite p]"
    "cwd w' = cwd w" "clock w' = clock w"
  using assms
  by (auto simp: write_file_def Let_def log_def split: option.splits node.splits)

lemma makedirs_Inr:
  assumes "makedirs p w = (Inr u, w')"
  shows "files w' p = Some Dir" "q \<noteq> p \<Longrightarrow> files w' q = files w q"
    "trace w' = trace w @ [MakeDirs p]" "cwd w' = cwd w" "clock w' = clock w"
  using assms
  by (auto simp: makedirs_def Let_def log_def split: option.splits node.splits)

lemma write_metadata_Inr:
  assumes "write_metadata w = (Inr u, w')"
  shows "files w' ''db_connection.txt'' = Some (TextFile (concat (connection_info w)))"
    "files w' ''db_visualizer/sqlite.env'' = Some (TextFile (concat (visualizer_env w)))"
    "q \<notin> {''db_connection.txt'', ''db_visualizer'', ''db_visualizer/sqlite.env''}
       \<Longrightarrow> files w' q = files w q"
    "trace w' = trace w @
       [Print ''Writing connection info ...'', OpenWrite ''db_connection.txt'',
        MakeDirs ''db_visualizer'', OpenWrite ''db_visualizer/sqlite.env'',
        Print ''Database initialization complete!'', Print (''Location: '' @ DB_PATH w)]"
    "cwd w' = cwd w"
proof -
  from assms obtain w1 w2 w3 where
    a: "write_file ''db_connection.txt'' (connection_info w)
          (print ''Writing connection info ...'' w) = (Inr (), w1)"
    and b: "makedirs ''db_visualizer'' w1 = (Inr (), w2)"
    and c: "write_file ''db_visualizer/sqlite.env'' (visualizer_env w2) w2 = (Inr (), w3)"
    and d: "w' = print (''Location: '' @ DB_PATH w3) (print ''Database initialization complete!'' w3)"
    by (auto simp: write_metadata_def and_then_Inr)
  note A = write_file_Inr [OF a] and B = makedirs_Inr [OF b] and C = write_file_Inr [OF c]
  have env: "visualizer_env w2 = visualizer_env w" "DB_PATH w3 = DB_PATH w"
    using A(3) B(4) C(3) by (simp_all add: visualizer_env_def DB_PATH_def)
  show "files w' ''db_connection.txt'' = Some (TextFile (concat (connection_info w)))"
    using A(1) B(2) [of "''db_connection.txt''"] C(1) d
    by (simp add: connection_info_def)
  show "files w' ''db_visualizer/sqlite.env'' = Some (TextFile (concat (visualizer_env w)))"
    using C(1) d env by simp
  show "files w' q = files w q"
    if "q \<notin> {''db_connection.txt'', ''db_visualizer'', ''db_visualizer/sqlite.env''}"
    using that A(1) B(2) [of q] C(1) d by simp
  show "trace w' = trace w @
       [Print ''Writing connection info ...'', OpenWrite ''db_connection.txt'',
        MakeDirs ''db_visualizer'', OpenWrite ''db_visualizer/sqlite.env'',
        Print ''Database initialization complete!'', Print (''Location: '' @ DB_PATH w)]"
    using A(2) B(3) C(2) d env by simp
  show "cwd w' = cwd w"
    using A(3) B(4) C(3) d by simp
qed

lemma write_metadata_steps:
  "\<exists>j. steps (trace (snd (write_metadata w))) = steps (trace w) @ replicate j WriteMetadata"
proof -
  let ?w0 = "print ''Writing connection info ...'' w"
  obtain r1 w1 where a: "write_file ''db_connection.txt'' (connection_info w) ?w0 = (r1, w1)"
    by (cases "write_file ''db_connection.txt'' (connection_info w) ?w0")
  with trace_write_file [of "''db_connection.txt''" "connection_info w" ?w0]
  have t1: "steps (trace w1) = steps (trace w) @ replicate 1 WriteMetadata"
    by (simp add: steps_def)
  show ?thesis
  proof (cases r1)
    case (Inl e)
    with a have "steps (trace (snd (write_metadata w))) = steps (trace w1)"
      by (simp add: write_metadata_def and_then_def)
    with t1 show ?thesis by metis
  next
    case Inr1: (Inr u1)
    obtain r2 w2 where b: "makedirs ''db_visualizer'' w1 = (r2, w2)"
      by (cases "makedirs ''db_visualizer'' w1")
    with trace_makedirs [of "''db_visualizer''" w1] t1
    have t2: "steps (trace w2) = steps (trace w) @ replicate 1 WriteMetadata"
      by (simp add: steps_def)
    show ?thesis
    proof (cases r2)
      case (Inl e)
      with a b Inr1 have "steps (trace (snd (write_metadata w))) = steps (trace w2)"
        by (simp add: write_metadata_def and_then_def)
      with t2 show ?thesis by metis
    next
      case Inr2: (Inr u2)
      obtain r3 w3 where c: "write_file ''db_visualizer/sqlite.env'' (visualizer_env w2) w2 = (r3, w3)"
        by (cases "write_file ''db_visualizer/sqlite.env'' (visualizer_env w2) w2")
      with trace_write_file [of "''db_visualizer/sqlite.env''" "visualizer_env w2" w2] t2
      have t3: "steps (trace w3) = steps (trace w) @ replicate 2 WriteMetadata"
        by (simp add: steps_def numeral_2_eq_2)
      have "steps (trace (snd (write_metadata w))) = steps (trace w3)"
        using a b c Inr1 Inr2
        by (cases r3) (simp_all add: write_metadata_def and_then_def steps_def)
      with t3 show ?thesis by metis
    qed
  qed
qed

lemma get_conn_Inr:
  assumes "get_conn w = (Inr c, w1)"
  shows "c = app_conn" "trace w1 = trace w @ [Connect DB_NAME, Execute PragmaForeignKeysOn]"
    "cwd w1 = cwd w" "clock w1 = clock w" "q \<noteq> DB_NAME \<Longrightarrow> files w1 q = files w q"
    "files w DB_NAME \<noteq> None \<Longrightarrow> files w1 DB_NAME = files w DB_NAME"
    "files w DB_NAME = None \<Longrightarrow> files w1 DB_NAME = Some (DbFile empty_db)"
  using assms
  by (auto simp: get_conn_def connect_def and_then_def set_foreign_keys_on_def Let_def log_def
      app_conn_def split: option.splits node.splits)

lemma get_conn_Inl:
  assumes "get_conn w = (Inl e, w1)"
  shows "trace w1 = trace w @ [Connect DB_NAME]"
  using assms trace_get_conn [of w] by simp

lemma get_conn_files_cong:
  "files w DB_NAME = files v DB_NAME \<Longrightarrow> fst (get_conn w) = fst (get_conn v)"
  by (simp add: get_conn_def connect_def and_then_def set_foreign_keys_on_def Let_def
      split: option.splits node.splits)

lemma trace_is_schema_up_to_date:
  "trace (snd (is_schema_up_to_date c w)) =
     trace w @ [Execute (SelectMax ''version'' ''schema_migrations'')]"
proof -
  let ?s = "SelectMax ''version'' ''schema_migrations''"
  obtain r w1 where e: "execute c ?s w = (r, w1)" by (cases "execute c ?s w")
  with trace_execute [of c ?s w] show ?thesis
    by (cases r) (simp_all add: is_schema_up_to_date_def and_then_def)
qed

lemma execute_files_cong:
  assumes "files w (conn_path c) = files v (conn_path c)" and "clock w = clock v"
  shows "fst (execute c s w) = fst (execute c s v)"
  using assms
  by (simp add: execute_def Let_def split: option.splits node.splits sum.splits prod.splits)

lemma is_schema_up_to_date_cong:
  assumes "files w (conn_path c) = files v (conn_path c)"
  shows "fst (is_schema_up_to_date c w) = fst (is_schema_up_to_date c v)"
proof -
  let ?s = "SelectMax ''version'' ''schema_migrations''"
  have "fst (execute c ?s w) = fst (execute c ?s v)"
    using assms
    by (simp add: execute_def Let_def select_max_def map_sum_def
        split: option.splits node.splits sum.splits prod.splits if_splits)
  then show ?thesis
    by (cases "execute c ?s w"; cases "execute c ?s v")
       (auto simp: is_schema_up_to_date_def and_then_def split: sum.splits)
qed

lemma is_schema_up_to_date_Inr:
  assumes "is_schema_up_to_date c w = (Inr up, w')"
  shows "\<exists>db. database_at (conn_path c) w = Some db \<and> database_at (conn_path c) w' = Some db"
    "q \<noteq> conn_path c \<Longrightarrow> files w' q = files w q" "cwd w' = cwd w" "clock w' = clock w"
    "files w (conn_path c) \<noteq> None"
proof -
  from assms obtain res where
    e: "execute c (SelectMax ''version'' ''schema_migrations'') w = (Inr res, w')"
    by (auto simp: is_schema_up_to_date_def and_then_Inr)
  from execute_Inr [OF e] obtain db db' where
    d: "database_at (conn_path c) w = Some db"
      "run_stmt (conn_foreign_keys c) (clock w) (SelectMax ''version'' ''schema_migrations'') db
         = Inr (db', res)"
      "database_at (conn_path c) w' = Some db'" "clock w' = clock w" "cwd w' = cwd w"
      "\<forall>q. q \<noteq> conn_path c \<longrightarrow> files w' q = files w q"
    by blast
  from d(2) have "db' = db" by (auto simp: map_sum_Inr)
  with d show "\<exists>db. database_at (conn_path c) w = Some db \<and> database_at (conn_path c) w' = Some db"
    by simp
  from d show "q \<noteq> conn_path c \<Longrightarrow> files w' q = files w q" "cwd w' = cwd w" "clock w' = clock w"
    by simp_all
  from database_at_files [OF d(1)] show "files w (conn_path c) \<noteq> None" by auto
qed

lemma apply_schema_Inr:
  assumes "apply_schema c up w = (Inr u, w')"
  shows "cwd w' = cwd w" "q \<noteq> conn_path c \<Longrightarrow> files w' q = files w q"
    "up \<Longrightarrow> files w' = files w \<and> trace w' = trace w @ [Print ''Schema already up-to-date.'']"
    "\<not> up \<Longrightarrow> trace w' = trace w @ Print ''Applying database schema ...''
        # map Execute (ddl_statements @ [record_version])
        @ [Commit, Print ''Schema created or updated successfully.'']"
    "\<not> up \<Longrightarrow> \<exists>db db'. database_at (conn_path c) w = Some db
        \<and> run_all (conn_foreign_keys c) (clock w) (ddl_statements @ [record_version]) db = Inr db'
        \<and> database_at (conn_path c) w' = Some db'"
proof -
  show "up \<Longrightarrow> files w' = files w \<and> trace w' = trace w @ [Print ''Schema already up-to-date.'']"
    using assms by (auto simp: apply_schema_def)
  have *: "\<exists>w1. create_tables c (print ''Applying database schema ...'' w) = (Inr (), w1)
          \<and> w' = print ''Schema created or updated successfully.'' w1" if "\<not> up"
    using assms that by (auto simp: apply_schema_def and_then_Inr)
  show "cwd w' = cwd w"
  proof (cases up)
    case True
    with assms show ?thesis by (auto simp: apply_schema_def)
  next
    case False
    from * [OF False] create_tables_Inr show ?thesis by fastforce
  qed
  show "files w' q = files w q" if "q \<noteq> conn_path c"
  proof (cases up)
    case True
    with assms show ?thesis by (auto simp: apply_schema_def)
  next
    case False
    from * [OF False] obtain w1 where
      w1: "create_tables c (print ''Applying database schema ...'' w) = (Inr (), w1)"
        "w' = print ''Schema created or updated successfully.'' w1" by blast
    from create_tables_Inr [OF w1(1)] that w1(2) show ?thesis by auto
  qed
  show "trace w' = trace w @ Print ''Applying database schema ...''
        # map Execute (ddl_statements @ [record_version])
        @ [Commit, Print ''Schema created or updated successfully.'']" if "\<not> up"
  proof -
    from * [OF that] obtain w1 where
      w1: "create_tables c (print ''Applying database schema ...'' w) = (Inr (), w1)"
        "w' = print ''Schema created or updated successfully.'' w1" by blast
    from create_tables_Inr [OF w1(1)] w1(2) show ?thesis by auto
  qed
  show "\<exists>db db'. database_at (conn_path c) w = Some db
        \<and> run_all (conn_foreign_keys c) (clock w) (ddl_statements @ [record_version]) db = Inr db'
        \<and> database_at (conn_path c) w' = Some db'" if "\<not> up"
  proof -
    from * [OF that] obtain w1 where
      w1: "create_tables c (print ''Applying database schema ...'' w) = (Inr (), w1)"
        "w' = print ''Schema created or updated successfully.'' w1" by blast
    from create_tables_Inr [OF w1(1)] w1(2) show ?thesis by auto
  qed
qed

lemma apply_schema_steps:
  "\<exists>k r. steps (trace (snd (apply_schema c up w))) =
            steps (trace w) @ replicate k ApplyDDL @ replicate r RecordVersion
     \<and> (0 < k \<longleftrightarrow> \<not> up) \<and> (up \<longrightarrow> r = 0)"
proof (cases up)
  case True
  then have "steps (trace (snd (apply_schema c up w))) =
      steps (trace w) @ replicate 0 ApplyDDL @ replicate 0 RecordVersion"
    by (simp add: apply_schema_def steps_def)
  with True show ?thesis by blast
next
  case False
  let ?w = "print ''Applying database schema ...'' w"
  from trace_create_tables [of c ?w] obtain k es where
    k: "trace (snd (create_tables c ?w)) =
          trace ?w @ map Execute (take k (ddl_statements @ [record_version])) @ es"
      "0 < k" "set es \<subseteq> {Commit}" by blast
  have es: "steps es = []"
    using k(3) by (induction es) (auto simp: steps_def)
  have "steps (trace (snd (apply_schema c up w))) = steps (trace (snd (create_tables c ?w)))"
    using False
    by (cases "create_tables c ?w")
       (auto simp: apply_schema_def and_then_def steps_def split: sum.splits)
  also have "\<dots> = steps (trace ?w)
        @ steps (map Execute (take k (ddl_statements @ [record_version]))) @ steps es"
    by (simp only: k(1) steps_append)
  also have "steps (trace ?w) = steps (trace w)"
    by (simp add: steps_def)
  also have "steps (map Execute (take k (ddl_statements @ [record_version]))) @ steps es
      = replicate (min k 8) ApplyDDL @ replicate (if 8 < k then 1 else 0) RecordVersion"
    by (simp only: steps_schema es) simp
  finally have "steps (trace (snd (apply_schema c up w))) =
      steps (trace w) @ replicate (min k 8) ApplyDDL
        @ replicate (if 8 < k then 1 else 0) RecordVersion" .
  moreover have "0 < min k 8" using k(2) by simp
  ultimately show ?thesis using False by blast
qed

lemma is_schema_up_to_date_ledger:
  assumes "is_schema_up_to_date c w = (Inr up, w')" and "database_at (conn_path c) w = Some db"
  shows "ledger db \<noteq> None"
proof -
  from assms(1) obtain res where
    e: "execute c (SelectMax ''version'' ''schema_migrations'') w = (Inr res, w')"
    by (auto simp: is_schema_up_to_date_def and_then_Inr)
  from execute_Inr [OF e] assms(2) show ?thesis
    by (auto simp: map_sum_Inr select_max_def ledger_def split: option.splits)
qed

lemma write_file_frame:
  "write_file p xs w = (r, w') \<Longrightarrow> q \<noteq> p \<Longrightarrow> files w' q = files w q"
  by (auto simp: write_file_def Let_def log_def split: option.splits node.splits)

lemma makedirs_frame:
  "makedirs p w = (r, w') \<Longrightarrow> q \<noteq> p \<Longrightarrow> files w' q = files w q"
  by (auto simp: makedirs_def Let_def log_def split: option.splits node.splits)

lemma write_metadata_frame:
  assumes "q \<notin> {''db_connection.txt'', ''db_visualizer'', ''db_visualizer/sqlite.env''}"
  shows "files (snd (write_metadata w)) q = files w q"
proof -
  let ?w0 = "print ''Writing connection info ...'' w"
  obtain r1 w1 where a: "write_file ''db_connection.txt'' (connection_info w) ?w0 = (r1, w1)"
    by (cases "write_file ''db_connection.txt'' (connection_info w) ?w0")
  obtain r2 w2 where b: "makedirs ''db_visualizer'' w1 = (r2, w2)"
    by (cases "makedirs ''db_visualizer'' w1")
  obtain r3 w3 where c: "write_file ''db_visualizer/sqlite.env'' (visualizer_env w2) w2 = (r3, w3)"
    by (cases "write_file ''db_visualizer/sqlite.env'' (visualizer_env w2) w2")
  from assms have f: "files w1 q = files w q" "files w2 q = files w1 q" "files w3 q = files w2 q"
    using write_file_frame [OF a, of q] makedirs_frame [OF b, of q] write_file_frame [OF c, of q]
    by simp_all
  show ?thesis
    using a b c f
    by (cases r1; cases r2; cases r3) (simp_all add: write_metadata_def and_then_def)
qed

lemma steps_get_conn:
  "steps (trace (snd (get_conn w))) = steps (trace w) @ [OpenConnection]"
  by (simp add: trace_get_conn steps_def split: sum.splits)

text \<open>Every run, however it ends, has its steps in one shape.\<close>
lemma initialize_db_shape:
  "\<exists>a k r j. steps (trace (snd (initialize_db w0))) =
       steps (trace w0) @ OpenConnection # replicate a CheckLedger @ replicate k ApplyDDL
         @ replicate r RecordVersion @ replicate j WriteMetadata
     \<and> (\<forall>c w1. get_conn (print ''Checking for existing SQLite database ...'' w0) = (Inr c, w1)
           \<longrightarrow> a = 1
             \<and> (0 < k \<longleftrightarrow> fst (is_schema_up_to_date c (found_or_created w0 w1)) = Inr False)
             \<and> (fst (is_schema_up_to_date c (found_or_created w0 w1)) = Inr True \<longrightarrow>
                  r = 0 \<and> database_at DB_NAME (snd (initialize_db w0)) = database_at DB_NAME w1))"
proof -
  let ?wa = "print ''Checking for existing SQLite database ...'' w0"
  let ?S = "\<lambda>a k r j. steps (trace w0) @ OpenConnection # replicate a CheckLedger
              @ replicate k ApplyDDL @ replicate r RecordVersion @ replicate j WriteMetadata"
  obtain r1 w1 where g: "get_conn ?wa = (r1, w1)" by (cases "get_conn ?wa")
  from steps_get_conn [of ?wa] g have s1: "steps (trace w1) = ?S 0 0 0 0"
    by (simp add: steps_def)
  show ?thesis
  proof (cases r1)
    case (Inl e)
    with g have "snd (initialize_db w0) = w1"
      by (simp add: initialize_db_parts and_then_def)
    with s1 g Inl show ?thesis by (intro exI [of _ 0]) simp
  next
    case c: (Inr c)
    let ?w2 = "found_or_created w0 w1"
    obtain r2 w2 where i: "is_schema_up_to_date c ?w2 = (r2, w2)"
      by (cases "is_schema_up_to_date c ?w2")
    from trace_is_schema_up_to_date [of c ?w2] i s1 have s2: "steps (trace w2) = ?S 1 0 0 0"
      by (simp add: steps_append) (simp add: steps_def)
    show ?thesis
    proof (cases r2)
      case (Inl e)
      with g c i have "snd (initialize_db w0) = w2"
        by (simp add: initialize_db_parts and_then_def)
      with s2 g c i Inl show ?thesis
        by (intro exI [of _ 1] exI [of _ 0]) simp
    next
      case up: (Inr up)
      obtain r3 w3 where a: "apply_schema c up w2 = (r3, w3)"
        by (cases "apply_schema c up w2")
      from apply_schema_steps [of c up w2] a obtain k r where
        kr: "steps (trace w3) = steps (trace w2) @ replicate k ApplyDDL @ replicate r RecordVersion"
          "0 < k \<longleftrightarrow> \<not> up" "up \<longrightarrow> r = 0"
        by auto
      with s2 have s3: "steps (trace w3) = ?S 1 k r 0" by simp
      have chk: "fst (is_schema_up_to_date c ?w2) = Inr up" using i up by simp
      have cp: "conn_path c = DB_NAME"
        using get_conn_Inr(1) [of ?wa c w1] g c by (simp add: app_conn_def)
      show ?thesis
      proof (cases r3)
        case (Inl e)
        with g c i up a have fin: "snd (initialize_db w0) = w3"
          by (simp add: initialize_db_parts and_then_def)
        have "up \<Longrightarrow> False"
          using a Inl by (simp add: apply_schema_def)
        with s3 fin g c chk kr show ?thesis
          by (intro exI [of _ 1] exI [of _ k] exI [of _ r] exI [of _ 0]) auto
      next
        case (Inr u)
        with g c i up a have fin: "snd (initialize_db w0) = snd (write_metadata w3)"
          by (simp add: initialize_db_parts and_then_def)
        from write_metadata_steps [of w3] obtain j where
          "steps (trace (snd (write_metadata w3))) = steps (trace w3) @ replicate j WriteMetadata"
          by blast
        with s3 fin have s4: "steps (trace (snd (initialize_db w0))) = ?S 1 k r j" by simp
        have db: "database_at DB_NAME (snd (initialize_db w0)) = database_at DB_NAME w1" if up
        proof -
          from is_schema_up_to_date_Inr(1) [of c ?w2 up w2] i up cp
          have "database_at DB_NAME w2 = database_at DB_NAME w1" by auto
          moreover from apply_schema_Inr(3) [of c up w2 u w3] a Inr that
          have "database_at DB_NAME w3 = database_at DB_NAME w2"
            by (simp add: database_at_def)
          moreover have "database_at DB_NAME (snd (write_metadata w3)) = database_at DB_NAME w3"
            using write_metadata_frame [of DB_NAME w3]
            by (simp add: database_at_def DB_NAME_def)
          ultimately show ?thesis using fin by simp
        qed
        from s4 g c chk kr db show ?thesis
          by (intro exI [of _ 1] exI [of _ k] exI [of _ r] exI [of _ j]) auto
      qed
    qed
  qed
qed

lemma get_conn_files:
  "files w = files v \<Longrightarrow> files (snd (get_conn w)) = files (snd (get_conn v))"
  by (simp add: get_conn_def connect_def and_then_def set_foreign_keys_on_def Let_def log_def
      split: option.splits node.splits)

lemma is_schema_up_to_date_conn:
  "conn_path c = conn_path c' \<Longrightarrow> fst (is_schema_up_to_date c w) = fst (is_schema_up_to_date c' w)"
  by (simp add: is_schema_up_to_date_def execute_def Let_def and_then_def
      split: option.splits node.splits sum.splits prod.splits)

text \<open>What a run that completes has done.\<close>
lemma initialize_db_Inr:
  assumes "initialize_db w0 = (Inr (), w')"
  shows "\<exists>up db db'.
      fst (is_schema_up_to_date app_conn w0) = Inr up
    \<and> database_at DB_NAME w0 = Some db \<and> database_at DB_NAME w' = Some db'
    \<and> (if up then db' = db
        else run_all True (clock w0) (ddl_statements @ [record_version]) db = Inr db')
    \<and> trace w' = trace w0 @
        [Print ''Checking for existing SQLite database ...'', Connect DB_NAME,
         Execute PragmaForeignKeysOn, Print (''Database found at '' @ DB_PATH w0),
         Execute (SelectMax ''version'' ''schema_migrations'')]
        @ (if up then [Print ''Schema already up-to-date.'']
           else Print ''Applying database schema ...''
                # map Execute (ddl_statements @ [record_version])
                @ [Commit, Print ''Schema created or updated successfully.''])
        @ [Print ''Writing connection info ...'', OpenWrite ''db_connection.txt'',
           MakeDirs ''db_visualizer'', OpenWrite ''db_visualizer/sqlite.env'',
           Print ''Database initialization complete!'', Print (''Location: '' @ DB_PATH w0)]
    \<and> files w' ''db_connection.txt'' = Some (TextFile (concat (connection_info w0)))
    \<and> files w' ''db_visualizer/sqlite.env'' = Some (TextFile (concat (visualizer_env w0)))
    \<and> (\<forall>q. q \<notin> {DB_NAME, ''db_connection.txt'', ''db_visualizer'', ''db_visualizer/sqlite.env''}
          \<longrightarrow> files w' q = files w0 q)"
proof -
  let ?wa = "print ''Checking for existing SQLite database ...'' w0"
  from assms obtain c w1 up w2 w3 where
    g: "get_conn ?wa = (Inr c, w1)"
    and i: "is_schema_up_to_date c (found_or_created w0 w1) = (Inr up, w2)"
    and a: "apply_schema c up w2 = (Inr (), w3)"
    and m: "write_metadata w3 = (Inr (), w')"
    by (auto simp: initialize_db_parts and_then_Inr)
  note G = get_conn_Inr [OF g] and I = is_schema_up_to_date_Inr [OF i]
    and A = apply_schema_Inr [OF a] and M = write_metadata_Inr [OF m]
  have c: "c = app_conn" "conn_path c = DB_NAME" "conn_foreign_keys c = True"
    using G(1) by (simp_all add: app_conn_def)
  from I(1) c obtain db where
    db: "database_at DB_NAME w1 = Some db" "database_at DB_NAME w2 = Some db" by auto
  from is_schema_up_to_date_ledger [OF i] db(1) c have led: "ledger db \<noteq> None" by simp
  have ex: "files w0 DB_NAME \<noteq> None"
  proof
    assume "files w0 DB_NAME = None"
    with G(7) have "files w1 DB_NAME = Some (DbFile empty_db)" by simp
    with db(1) have "db = empty_db" by (simp add: database_at_def db_of_node_def)
    with led show False by (simp add: ledger_def empty_db_def)
  qed
  with G(6) have f1: "files w1 DB_NAME = files w0 DB_NAME" by simp
  then have db0: "database_at DB_NAME w0 = Some db"
    using db(1) by (simp add: database_at_def)
  have chk: "fst (is_schema_up_to_date app_conn w0) = Inr up"
    using is_schema_up_to_date_cong [of "found_or_created w0 w1" c w0] i f1 c by simp
  have cw: "cwd w3 = cwd w0" "clock w2 = clock w0" "cwd w2 = cwd w0" "cwd w1 = cwd w0"
    using G(3,4) I(3,4) A(1) by simp_all
  have p: "DB_PATH w3 = DB_PATH w0" "DB_PATH w1 = DB_PATH w0"
    "connection_info w3 = connection_info w0" "visualizer_env w3 = visualizer_env w0"
    using cw by (simp_all add: DB_PATH_def connection_info_def visualizer_env_def)
  have t2: "trace w2 = trace w0 @
        [Print ''Checking for existing SQLite database ...'', Connect DB_NAME,
         Execute PragmaForeignKeysOn, Print (''Database found at '' @ DB_PATH w0),
         Execute (SelectMax ''version'' ''schema_migrations'')]"
    using trace_is_schema_up_to_date [of c "found_or_created w0 w1"] i G(2) ex p(2)
    by (simp add: found_or_created_def path_exists_def)
  have t3: "trace w3 = trace w2 @
        (if up then [Print ''Schema already up-to-date.'']
         else Print ''Applying database schema ...''
              # map Execute (ddl_statements @ [record_version])
              @ [Commit, Print ''Schema created or updated successfully.''])"
    using A(3,4) by (cases up) simp_all
  have d3: "\<exists>db'. database_at DB_NAME w3 = Some db'
      \<and> (if up then db' = db
          else run_all True (clock w0) (ddl_statements @ [record_version]) db = Inr db')"
  proof (cases up)
    case True
    with A(3) db(2) show ?thesis by (simp add: database_at_def)
  next
    case False
    from A(5) [OF False] db(2) c cw(2) show ?thesis using False by auto
  qed
  then obtain db' where
    db': "database_at DB_NAME w3 = Some db'"
      "if up then db' = db
       else run_all True (clock w0) (ddl_statements @ [record_version]) db = Inr db'"
    by blast
  have "database_at DB_NAME w' = Some db'"
    using M(3) [of DB_NAME] db'(1) by (simp add: database_at_def DB_NAME_def)
  moreover have "files w' q = files w0 q"
    if "q \<notin> {DB_NAME, ''db_connection.txt'', ''db_visualizer'', ''db_visualizer/sqlite.env''}" for q
    using that M(3) [of q] A(2) [of q] I(2) [of q] G(5) [of q] c(2) by simp
  ultimately show ?thesis
    using chk db0 db'(2) M(1,2,4) t2 t3 p by auto
qed

text \<open>
  C5. Every run of initialize_db that completes, whether or not it applied the schema, has
  opened exactly two files for writing, db_connection.txt and then db_visualizer/sqlite.env.
  The first holds the sqlite3 connect call, the connection string and the file path of the
  database, the second the export of SQLITE_DB; apart from these two, the database file
  and the directory db_visualizer, no path has changed.
\<close>

theorem initialize_db_writes_metadata:
  assumes "initialize_db w0 = (Inr (), w')"
  shows \<open>files w' ''db_connection.txt'' =
          Some (TextFile (''# SQLite connection methods:\<newline>''
            @ ''# Python: sqlite3.connect('' @ [CHR 0x27] @ ''myapp.db'' @ [CHR 0x27] @ '')\<newline>''
            @ ''# Connection string: sqlite:///'' @ DB_PATH w0 @ ''\<newline>''
            @ ''# File path: '' @ DB_PATH w0 @ ''\<newline>''))
       \<and> files w' ''db_visualizer/sqlite.env'' =
          Some (TextFile (''export SQLITE_DB="'' @ DB_PATH w0 @ ''"\<newline>''))
       \<and> written (trace w') = written (trace w0) @ [''db_connection.txt'', ''db_visualizer/sqlite.env'']
       \<and> (\<forall>q. q \<notin> {DB_NAME, ''db_connection.txt'', ''db_visualizer'', ''db_visualizer/sqlite.env''}
             \<longrightarrow> files w' q = files w0 q)\<close>
proof -
  from initialize_db_Inr [OF assms] obtain up where
    t: "trace w' = trace w0 @
        [Print ''Checking for existing SQLite database ...'', Connect DB_NAME,
         Execute PragmaForeignKeysOn, Print (''Database found at '' @ DB_PATH w0),
         Execute (SelectMax ''version'' ''schema_migrations'')]
        @ (if up then [Print ''Schema already up-to-date.'']
           else Print ''Applying database schema ...''
                # map Execute (ddl_statements @ [record_version])
                @ [Commit, Print ''Schema created or updated successfully.''])
        @ [Print ''Writing connection info ...'', OpenWrite ''db_connection.txt'',
           MakeDirs ''db_visualizer'', OpenWrite ''db_visualizer/sqlite.env'',
           Print ''Database initialization complete!'', Print (''Location: '' @ DB_PATH w0)]"
    and f: "files w' ''db_connection.txt'' = Some (TextFile (concat (connection_info w0)))"
      "files w' ''db_visualizer/sqlite.env'' = Some (TextFile (concat (visualizer_env w0)))"
      "\<forall>q. q \<notin> {DB_NAME, ''db_connection.txt'', ''db_visualizer'', ''db_visualizer/sqlite.env''}
          \<longrightarrow> files w' q = files w0 q"
    by blast
  have "written (map Execute ss) = []" for ss
    by (induction ss) (simp_all add: written_def)
  then have "written (trace w') = written (trace w0) @ [''db_connection.txt'', ''db_visualizer/sqlite.env'']"
    unfolding t by (cases up) (simp_all add: written_def)
  with f show ?thesis
    by (simp add: connection_info_def visualizer_env_def DB_NAME_def)
qed

theorem initialize_db_writes_metadata_witness:
  \<open>fst (initialize_db (world_with recorded_db)) = Inr ()
   \<and> files (snd (initialize_db (world_with recorded_db))) ''db_visualizer/sqlite.env'' =
       Some (TextFile ''export SQLITE_DB="/app/myapp.db"\<newline>'')
   \<and> written (trace (snd (initialize_db (world_with recorded_db)))) =
       [''db_connection.txt'', ''db_visualizer/sqlite.env'']\<close>
proof -
  have a: "fst (initialize_db (world_with recorded_db)) = Inr ()"
    by code_simp
  then have b: "initialize_db (world_with recorded_db)
      = (Inr (), snd (initialize_db (world_with recorded_db)))"
    by (simp add: prod_eq_iff)
  have c: "DB_PATH (world_with recorded_db) = ''/app/myapp.db''"
    "trace (world_with recorded_db) = []"
    by (simp_all add: DB_PATH_def abspath_def world_with_def fresh_world_def DB_NAME_def)
  from initialize_db_writes_metadata [OF b] a show ?thesis
    by (simp add: c written_def)
qed

text \<open>
  C1 fails on the code. With no database file, sqlite3.connect creates an empty one, and
  the check that follows selects from schema_migrations, which is not there yet: the run
  stops with an OperationalError before create_tables is reached, and the file it leaves
  is an empty database.
\<close>

theorem initialize_db_fresh_fails:
  assumes "files w0 DB_NAME = None"
  shows "fst (initialize_db w0) = Inl (OperationalError ''no such table: schema_migrations'')
       \<and> database_at DB_NAME (snd (initialize_db w0)) = Some empty_db"
  using assms
  by (simp add: initialize_db_parts get_conn_def connect_def set_foreign_keys_on_def and_then_def
      Let_def log_def print_def found_or_created_def path_exists_def is_schema_up_to_date_def
      execute_def db_of_node_def select_max_def empty_db_def database_at_def)

theorem initialize_db_fresh_fails_witness:
  "files fresh_world DB_NAME = None
   \<and> fst (initialize_db fresh_world) = Inl (OperationalError ''no such table: schema_migrations'')
   \<and> database_at DB_NAME (snd (initialize_db fresh_world)) = Some empty_db"
  using initialize_db_fresh_fails [of fresh_world] by (simp add: fresh_world_def)

section \<open>The statements a run executes\<close>

lemma executed_simps [simp]:
  "executed [] = []" "executed (Execute s # tr) = s # executed tr"
  "executed (Print x # tr) = executed tr" "executed (Connect p # tr) = executed tr"
  "executed (Commit # tr) = executed tr" "executed (OpenWrite p # tr) = executed tr"
  "executed (MakeDirs p # tr) = executed tr"
  by (simp_all add: executed_def)

lemma executed_append [simp]: "executed (xs @ ys) = executed xs @ executed ys"
  by (simp add: executed_def)

lemma executed_Execute [simp]: "executed (map Execute ss) = ss"
  by (induction ss) simp_all

lemma execute_all_fails:
  "database_at (conn_path c) w = Some db \<Longrightarrow>
   run_all (conn_foreign_keys c) (clock w) ss db = Inl e \<Longrightarrow>
     fst (execute_all c ss w) = Inl e
     \<and> (\<exists>k. 0 < k \<and> k \<le> length ss
            \<and> trace (snd (execute_all c ss w)) = trace w @ map Execute (take k ss))"
proof (induction ss arbitrary: w db)
  case Nil
  then show ?case by simp
next
  case (Cons s ss)
  show ?case
  proof (cases "run_stmt (conn_foreign_keys c) (clock w) s db")
    case (Inl e')
    with Cons.prems(2) have "e' = e" by simp
    with Inl have "execute c s w = (Inl e, log (Execute s) w)"
      by (simp add: execute_on_db [OF Cons.prems(1)])
    then have "fst (execute_all c (s # ss) w) = Inl e"
      "trace (snd (execute_all c (s # ss) w)) = trace w @ map Execute (take 1 (s # ss))"
      by (simp_all add: and_then_def log_def)
    then show ?thesis by (intro conjI exI [of _ 1]) simp_all
  next
    case (Inr p)
    obtain db1 res where p: "p = (db1, res)" by (cases p)
    let ?w1 = "(log (Execute s) w)\<lparr>files := (files w)(conn_path c \<mapsto> DbFile db1)\<rparr>"
    from Inr p have e: "execute c s w = (Inr res, ?w1)"
      by (simp add: execute_on_db [OF Cons.prems(1)])
    from Inr p Cons.prems(2) have rest: "run_all (conn_foreign_keys c) (clock ?w1) ss db1 = Inl e"
      by (simp add: log_def)
    have at: "database_at (conn_path c) ?w1 = Some db1"
      by (simp add: database_at_def db_of_node_def log_def)
    from Cons.IH [OF at rest] obtain k where
      k: "fst (execute_all c ss ?w1) = Inl e" "0 < k" "k \<le> length ss"
        "trace (snd (execute_all c ss ?w1)) = trace ?w1 @ map Execute (take k ss)"
      by blast
    from e k(1) have "fst (execute_all c (s # ss) w) = Inl e"
      by (simp add: and_then_def)
    moreover from e k(4)
    have "trace (snd (execute_all c (s # ss) w)) = trace w @ map Execute (take (Suc k) (s # ss))"
      by (simp add: and_then_def log_def)
    ultimately show ?thesis using k(3) by (intro conjI exI [of _ "Suc k"]) simp_all
  qed
qed

lemma create_tables_fails:
  assumes "database_at (conn_path c) w = Some db"
    and "run_all (conn_foreign_keys c) (clock w) (ddl_statements @ [record_version]) db = Inl e"
  shows "fst (create_tables c w) = Inl e
     \<and> (\<exists>k. 0 < k \<and> k \<le> length (ddl_statements @ [record_version])
            \<and> trace (snd (create_tables c w))
                = trace w @ map Execute (take k (ddl_statements @ [record_version])))"
proof -
  let ?ss = "ddl_statements @ [record_version]"
  from execute_all_fails [OF assms] obtain k where
    k: "fst (execute_all c ?ss w) = Inl e" "0 < k" "k \<le> length ?ss"
      "trace (snd (execute_all c ?ss w)) = trace w @ map Execute (take k ?ss)"
    by blast
  from k(1) have "create_tables c w = (Inl e, snd (execute_all c ?ss w))"
    by (cases "execute_all c ?ss w") (simp add: create_tables_eq and_then_def)
  with k show ?thesis by auto
qed

lemma create_tables_succeeds:
  assumes "database_at (conn_path c) w = Some db"
    and "run_all (conn_foreign_keys c) (clock w) (ddl_statements @ [record_version]) db = Inr db'"
  shows "fst (create_tables c w) = Inr ()
     \<and> database_at (conn_path c) (snd (create_tables c w)) = Some db'
     \<and> trace (snd (create_tables c w))
         = trace w @ map Execute (ddl_statements @ [record_version]) @ [Commit]"
proof -
  from create_tables_run_all [OF assms] obtain w' where
    w': "create_tables c w = (Inr (), w')" ..
  from create_tables_Inr [OF w'] assms w' show ?thesis by auto
qed

lemma executed_write_metadata:
  "executed (trace (snd (write_metadata w))) = executed (trace w)"
proof -
  let ?w0 = "print ''Writing connection info ...'' w"
  obtain r1 w1 where a: "write_file ''db_connection.txt'' (connection_info w) ?w0 = (r1, w1)"
    by (cases "write_file ''db_connection.txt'' (connection_info w) ?w0")
  obtain r2 w2 where b: "makedirs ''db_visualizer'' w1 = (r2, w2)"
    by (cases "makedirs ''db_visualizer'' w1")
  obtain r3 w3 where c: "write_file ''db_visualizer/sqlite.env'' (visualizer_env w2) w2 = (r3, w3)"
    by (cases "write_file ''db_visualizer/sqlite.env'' (visualizer_env w2) w2")
  have t: "executed (trace w1) = executed (trace w)" "executed (trace w2) = executed (trace w1)"
    "executed (trace w3) = executed (trace w2)"
    using trace_write_file [of "''db_connection.txt''" "connection_info w" ?w0] a
      trace_makedirs [of "''db_visualizer''" w1] b
      trace_write_file [of "''db_visualizer/sqlite.env''" "visualizer_env w2" w2] c
    by simp_all
  show ?thesis
    using a b c t
    by (cases r1; cases r2; cases r3) (simp_all add: write_metadata_def and_then_def)
qed

lemma get_conn_on_db:
  assumes "database_at DB_NAME w = Some db"
  shows "fst (get_conn w) = Inr app_conn"
    "database_at DB_NAME (snd (get_conn w)) = Some db"
    "trace (snd (get_conn w)) = trace w @ [Connect DB_NAME, Execute PragmaForeignKeysOn]"
    "clock (snd (get_conn w)) = clock w"
proof -
  from database_at_files [OF assms] obtain f where
    f: "files w DB_NAME = Some f" "f \<noteq> Dir" by auto
  then show g: "fst (get_conn w) = Inr app_conn"
    by (cases f)
       (simp_all add: get_conn_def connect_def and_then_def set_foreign_keys_on_def Let_def
         app_conn_def)
  then have e: "get_conn w = (Inr app_conn, snd (get_conn w))" by (simp add: prod_eq_iff)
  from get_conn_Inr(6) [OF e] f(1) assms
  show "database_at DB_NAME (snd (get_conn w)) = Some db"
    by (simp add: database_at_def)
  from get_conn_Inr(2,4) [OF e]
  show "trace (snd (get_conn w)) = trace w @ [Connect DB_NAME, Execute PragmaForeignKeysOn]"
    "clock (snd (get_conn w)) = clock w"
    by simp_all
qed

lemma is_schema_up_to_date_on_ledger:
  assumes "database_at (conn_path c) w = Some db" and "ledger db = Some l"
    and "''version'' \<in> set (column_names l)"
  shows "fst (is_schema_up_to_date c w) = Inr (max_val (recorded_versions l) = IntV SCHEMA_VERSION)"
    "database_at (conn_path c) (snd (is_schema_up_to_date c w)) = Some db"
    "clock (snd (is_schema_up_to_date c w)) = clock w"
proof -
  show v: "fst (is_schema_up_to_date c w)
        = Inr (max_val (recorded_versions l) = IntV SCHEMA_VERSION)"
    by (rule is_schema_up_to_date_value [OF assms])
  then have e: "is_schema_up_to_date c w
      = (Inr (max_val (recorded_versions l) = IntV SCHEMA_VERSION), snd (is_schema_up_to_date c w))"
    by (simp add: prod_eq_iff)
  from is_schema_up_to_date_Inr(1) [OF e] assms(1)
  show "database_at (conn_path c) (snd (is_schema_up_to_date c w)) = Some db" by auto
  from is_schema_up_to_date_Inr(4) [OF e]
  show "clock (snd (is_schema_up_to_date c w)) = clock w" .
qed

lemma executed_found_or_created [simp]:
  "executed (trace (found_or_created w0 w)) = executed (trace w)"
  by (simp add: found_or_created_def)

text \<open>A run on a database that has the ledger with its version column: what it executes
  and what database it leaves, by the outcome of the check and of the statements.\<close>
lemma initialize_db_on_ledger:
  assumes "database_at DB_NAME w0 = Some db" and "ledger db = Some l"
    and "''version'' \<in> set (column_names l)"
  shows "max_val (recorded_versions l) = IntV SCHEMA_VERSION \<Longrightarrow>
      executed (trace (snd (initialize_db w0))) = executed (trace w0)
        @ [PragmaForeignKeysOn, SelectMax ''version'' ''schema_migrations'']
      \<and> database_at DB_NAME (snd (initialize_db w0)) = Some db"
    and "max_val (recorded_versions l) \<noteq> IntV SCHEMA_VERSION \<Longrightarrow>
      run_all True (clock w0) (ddl_statements @ [record_version]) db = Inr db' \<Longrightarrow>
      executed (trace (snd (initialize_db w0))) = executed (trace w0)
        @ [PragmaForeignKeysOn, SelectMax ''version'' ''schema_migrations'']
        @ ddl_statements @ [record_version]
      \<and> database_at DB_NAME (snd (initialize_db w0)) = Some db'"
    and "max_val (recorded_versions l) \<noteq> IntV SCHEMA_VERSION \<Longrightarrow>
      run_all True (clock w0) (ddl_statements @ [record_version]) db = Inl e \<Longrightarrow>
      fst (initialize_db w0) = Inl e
      \<and> (\<exists>k. 0 < k \<and> k \<le> 9 \<and> executed (trace (snd (initialize_db w0))) = executed (trace w0)
            @ [PragmaForeignKeysOn, SelectMax ''version'' ''schema_migrations'']
            @ take k (ddl_statements @ [record_version]))"
proof -
  let ?wa = "print ''Checking for existing SQLite database ...'' w0"
  let ?up = "max_val (recorded_versions l) = IntV SCHEMA_VERSION"
  let ?ss = "ddl_statements @ [record_version]"
  have c: "conn_path app_conn = DB_NAME" "conn_foreign_keys app_conn = True"
    by (simp_all add: app_conn_def)
  have a0: "database_at DB_NAME ?wa = Some db" using assms(1) by simp
  from get_conn_on_db(1) [OF a0] obtain w1 where
    g: "get_conn ?wa = (Inr app_conn, w1)" by (cases "get_conn ?wa") auto
  from get_conn_on_db(2-4) [OF a0] g have
    G: "database_at DB_NAME w1 = Some db"
      "trace w1 = trace ?wa @ [Connect DB_NAME, Execute PragmaForeignKeysOn]"
      "clock w1 = clock ?wa"
    by simp_all
  let ?w2 = "found_or_created w0 w1"
  have a2: "database_at (conn_path app_conn) ?w2 = Some db" using G(1) c by simp
  from is_schema_up_to_date_on_ledger(1) [OF a2 assms(2,3)] obtain w3 where
    i: "is_schema_up_to_date app_conn ?w2 = (Inr ?up, w3)"
    by (cases "is_schema_up_to_date app_conn ?w2") auto
  from is_schema_up_to_date_on_ledger(2,3) [OF a2 assms(2,3)] i c
    trace_is_schema_up_to_date [of app_conn ?w2]
  have I: "database_at DB_NAME w3 = Some db" "clock w3 = clock ?w2"
    "trace w3 = trace ?w2 @ [Execute (SelectMax ''version'' ''schema_migrations'')]"
    by simp_all
  have e3: "executed (trace w3) = executed (trace w0)
      @ [PragmaForeignKeysOn, SelectMax ''version'' ''schema_migrations'']"
    by (simp add: I(3) G(2))
  have d3: "database_at DB_NAME w3 = Some db" by (rule I(1))
  have k3: "clock w3 = clock w0" using I(2) G(3) by simp
  have parts: "initialize_db w0 = and_then (apply_schema app_conn ?up w3) (\<lambda>_. write_metadata)"
    by (simp add: initialize_db_parts g i and_then_def)
  have meta: "executed (trace (snd (write_metadata w))) = executed (trace w)
      \<and> database_at DB_NAME (snd (write_metadata w)) = database_at DB_NAME w" for w
    using executed_write_metadata [of w] write_metadata_frame [of DB_NAME w]
    by (simp add: database_at_def DB_NAME_def)
  show "executed (trace (snd (initialize_db w0))) = executed (trace w0)
        @ [PragmaForeignKeysOn, SelectMax ''version'' ''schema_migrations'']
      \<and> database_at DB_NAME (snd (initialize_db w0)) = Some db" if ?up
  proof -
    from that have "initialize_db w0 = write_metadata (print ''Schema already up-to-date.'' w3)"
      by (simp add: parts apply_schema_def and_then_def)
    with meta [of "print ''Schema already up-to-date.'' w3"] e3 d3 show ?thesis by simp
  qed
  let ?w4 = "print ''Applying database schema ...'' w3"
  have a4: "database_at (conn_path app_conn) ?w4 = Some db" using d3 c by simp
  show "executed (trace (snd (initialize_db w0))) = executed (trace w0)
        @ [PragmaForeignKeysOn, SelectMax ''version'' ''schema_migrations'']
        @ ddl_statements @ [record_version]
      \<and> database_at DB_NAME (snd (initialize_db w0)) = Some db'"
    if "\<not> ?up" "run_all True (clock w0) ?ss db = Inr db'"
  proof -
    from that(2) have "run_all (conn_foreign_keys app_conn) (clock ?w4) ?ss db = Inr db'"
      using k3 c by simp
    from create_tables_succeeds [OF a4 this] c have
      s: "fst (create_tables app_conn ?w4) = Inr ()"
        "database_at DB_NAME (snd (create_tables app_conn ?w4)) = Some db'"
        "trace (snd (create_tables app_conn ?w4)) = trace ?w4 @ map Execute ?ss @ [Commit]"
      by simp_all
    let ?w5 = "print ''Schema created or updated successfully.'' (snd (create_tables app_conn ?w4))"
    from s(1) that(1) have "initialize_db w0 = write_metadata ?w5"
      by (cases "create_tables app_conn ?w4") (simp add: parts apply_schema_def and_then_def)
    moreover have "executed (trace ?w5) = executed (trace w0)
        @ [PragmaForeignKeysOn, SelectMax ''version'' ''schema_migrations''] @ ?ss"
      using e3 by (simp add: s(3))
    moreover have "database_at DB_NAME ?w5 = Some db'" using s(2) by simp
    ultimately show ?thesis using meta [of ?w5] by simp
  qed
  show "fst (initialize_db w0) = Inl e
      \<and> (\<exists>k. 0 < k \<and> k \<le> 9 \<and> executed (trace (snd (initialize_db w0))) = executed (trace w0)
            @ [PragmaForeignKeysOn, SelectMax ''version'' ''schema_migrations'']
            @ take k (ddl_statements @ [record_version]))"
    if "\<not> ?up" "run_all True (clock w0) ?ss db = Inl e"
  proof -
    from that(2) have "run_all (conn_foreign_keys app_conn) (clock ?w4) ?ss db = Inl e"
      using k3 c by simp
    from create_tables_fails [OF a4 this] obtain k where
      k: "fst (create_tables app_conn ?w4) = Inl e" "0 < k" "k \<le> length ?ss"
        "trace (snd (create_tables app_conn ?w4)) = trace ?w4 @ map Execute (take k ?ss)"
      by blast
    from k(1) that(1) have fin: "initialize_db w0 = (Inl e, snd (create_tables app_conn ?w4))"
      by (cases "create_tables app_conn ?w4") (simp add: parts apply_schema_def and_then_def)
    have "executed (trace (snd (create_tables app_conn ?w4))) = executed (trace w0)
        @ [PragmaForeignKeysOn, SelectMax ''version'' ''schema_migrations''] @ take k ?ss"
      using e3 by (simp add: k(4))
    moreover from k(3) have "k \<le> 9" by (simp add: ddl_statements_def)
    ultimately show ?thesis using fin k(2) by auto
  qed
qed

lemma all_ints:
  "\<forall>v \<in> set xs. \<exists>i. v = IntV i \<and> P i \<Longrightarrow> \<exists>vs. xs = map IntV vs \<and> (\<forall>i \<in> set vs. P i)"
proof (induction xs)
  case Nil
  then show ?case by simp
next
  case (Cons x xs)
  then obtain i vs where "x = IntV i" "P i" "xs = map IntV vs" "\<forall>i \<in> set vs. P i" by auto
  then have "x # xs = map IntV (i # vs) \<and> (\<forall>j \<in> set (i # vs). P j)" by simp
  then show ?case by (rule exI)
qed

lemma max_val_above:
  assumes "\<forall>v \<in> set xs. \<exists>i. v = IntV i \<and> SCHEMA_VERSION < i"
  shows "max_val xs \<noteq> IntV SCHEMA_VERSION"
proof -
  from all_ints [OF assms] obtain vs where
    vs: "xs = map IntV vs" "\<forall>i \<in> set vs. SCHEMA_VERSION < i" by blast
  show ?thesis
  proof (cases "vs = []")
    case True
    with vs(1) show ?thesis by (simp add: max_val_def)
  next
    case False
    then have "Max (set vs) \<in> set vs" by (intro Max_in) simp_all
    with vs(2) have "SCHEMA_VERSION < Max (set vs)" by blast
    with vs(1) False show ?thesis by (simp add: max_val_ints)
  qed
qed

text \<open>
  C2, as amended. On every database whose schema_migrations table exists with a version
  column, initialize_db checks the ledger and then applies the DDL if and only if the
  greatest version the ledger records is not SCHEMA_VERSION (an empty ledger has none).
  When the greatest version is SCHEMA_VERSION, the run executes the pragma and the check
  and no other statement, and leaves the database as it was. Otherwise it executes the
  eight DDL statements and the recording of the version, in the order of create_tables,
  and the database it leaves is the result of those statements; should one of them
  raise, the run stops there with that error.
\<close>

theorem initialize_db_applies_ddl_iff_max_differs:
  assumes "database_at DB_NAME w0 = Some db" and "ledger db = Some l"
    and "''version'' \<in> set (column_names l)" and "trace w0 = []"
  shows "(max_val (recorded_versions l) = IntV SCHEMA_VERSION \<longrightarrow>
            executed (trace (snd (initialize_db w0)))
              = [PragmaForeignKeysOn, SelectMax ''version'' ''schema_migrations'']
          \<and> database_at DB_NAME (snd (initialize_db w0)) = Some db)
       \<and> (max_val (recorded_versions l) \<noteq> IntV SCHEMA_VERSION \<longrightarrow>
            (case run_all True (clock w0) (ddl_statements @ [record_version]) db of
               Inr db' \<Rightarrow>
                 executed (trace (snd (initialize_db w0)))
                   = [PragmaForeignKeysOn, SelectMax ''version'' ''schema_migrations'']
                     @ ddl_statements @ [record_version]
                 \<and> database_at DB_NAME (snd (initialize_db w0)) = Some db'
             | Inl e \<Rightarrow>
                 fst (initialize_db w0) = Inl e
                 \<and> (\<exists>k. 0 < k \<and> k \<le> 9 \<and> executed (trace (snd (initialize_db w0)))
                       = [PragmaForeignKeysOn, SelectMax ''version'' ''schema_migrations'']
                         @ take k (ddl_statements @ [record_version]))))
       \<and> (\<forall>vs. recorded_versions l = map IntV vs \<longrightarrow>
            (max_val (recorded_versions l) = IntV SCHEMA_VERSION)
              = (vs \<noteq> [] \<and> Max (set vs) = SCHEMA_VERSION))"
proof -
  note L = initialize_db_on_ledger [OF assms(1-3)]
  have e0: "executed (trace w0) = []" using assms(4) by simp
  have "max_val (recorded_versions l) = IntV SCHEMA_VERSION \<longrightarrow>
            executed (trace (snd (initialize_db w0)))
              = [PragmaForeignKeysOn, SelectMax ''version'' ''schema_migrations'']
          \<and> database_at DB_NAME (snd (initialize_db w0)) = Some db"
    using L(1) e0 by simp
  moreover have "max_val (recorded_versions l) \<noteq> IntV SCHEMA_VERSION \<longrightarrow>
            (case run_all True (clock w0) (ddl_statements @ [record_version]) db of
               Inr db' \<Rightarrow>
                 executed (trace (snd (initialize_db w0)))
                   = [PragmaForeignKeysOn, SelectMax ''version'' ''schema_migrations'']
                     @ ddl_statements @ [record_version]
                 \<and> database_at DB_NAME (snd (initialize_db w0)) = Some db'
             | Inl e \<Rightarrow>
                 fst (initialize_db w0) = Inl e
                 \<and> (\<exists>k. 0 < k \<and> k \<le> 9 \<and> executed (trace (snd (initialize_db w0)))
                       = [PragmaForeignKeysOn, SelectMax ''version'' ''schema_migrations'']
                         @ take k (ddl_statements @ [record_version])))"
  proof
    assume n: "max_val (recorded_versions l) \<noteq> IntV SCHEMA_VERSION"
    show "case run_all True (clock w0) (ddl_statements @ [record_version]) db of
               Inr db' \<Rightarrow>
                 executed (trace (snd (initialize_db w0)))
                   = [PragmaForeignKeysOn, SelectMax ''version'' ''schema_migrations'']
                     @ ddl_statements @ [record_version]
                 \<and> database_at DB_NAME (snd (initialize_db w0)) = Some db'
             | Inl e \<Rightarrow>
                 fst (initialize_db w0) = Inl e
                 \<and> (\<exists>k. 0 < k \<and> k \<le> 9 \<and> executed (trace (snd (initialize_db w0)))
                       = [PragmaForeignKeysOn, SelectMax ''version'' ''schema_migrations'']
                         @ take k (ddl_statements @ [record_version]))"
    proof (cases "run_all True (clock w0) (ddl_statements @ [record_version]) db")
      case (Inl e)
      with L(3) [OF n Inl] e0 show ?thesis by simp
    next
      case (Inr db')
      with L(2) [OF n Inr] e0 show ?thesis by simp
    qed
  qed
  moreover have "\<forall>vs. recorded_versions l = map IntV vs \<longrightarrow>
            (max_val (recorded_versions l) = IntV SCHEMA_VERSION)
              = (vs \<noteq> [] \<and> Max (set vs) = SCHEMA_VERSION)"
    by (simp add: max_val_ints)
  ultimately show ?thesis by blast
qed

theorem initialize_db_applies_ddl_iff_max_differs_witness:
  "database_at DB_NAME (world_with outdated_db) = Some outdated_db
   \<and> ledger outdated_db = Some \<lparr>tdef = schema_migrations_ddl, rows = []\<rparr>
   \<and> max_val (recorded_versions \<lparr>tdef = schema_migrations_ddl, rows = []\<rparr>) \<noteq> IntV SCHEMA_VERSION
   \<and> executed (trace (snd (initialize_db (world_with outdated_db))))
       = [PragmaForeignKeysOn, SelectMax ''version'' ''schema_migrations'']
         @ ddl_statements @ [record_version]
   \<and> (\<exists>db'. run_all True (clock (world_with outdated_db)) (ddl_statements @ [record_version])
                outdated_db = Inr db'
          \<and> database_at DB_NAME (snd (initialize_db (world_with outdated_db))) = Some db'
          \<and> installed db' \<and> version_recorded db')"
proof -
  let ?l = "\<lparr>tdef = schema_migrations_ddl, rows = []\<rparr>"
  let ?w = "world_with outdated_db"
  have a: "database_at DB_NAME ?w = Some outdated_db"
    by (simp add: database_at_def db_of_node_def world_with_def)
  have b: "ledger outdated_db = Some ?l"
    by (simp add: ledger_def outdated_db_def)
  have c: "''version'' \<in> set (column_names ?l)"
    by (simp add: column_names_def schema_migrations_ddl_def col_def)
  have d: "trace ?w = []"
    by (simp add: world_with_def fresh_world_def)
  have m: "max_val (recorded_versions ?l) \<noteq> IntV SCHEMA_VERSION"
    by (simp add: max_val_def recorded_versions_def)
  have "fst (create_tables app_conn ?w) = Inr ()"
    by code_simp
  then have "create_tables app_conn ?w = (Inr (), snd (create_tables app_conn ?w))"
    by (simp add: prod_eq_iff)
  from create_tables_Inr [OF this] a obtain db' where
    r: "run_all True (clock ?w) (ddl_statements @ [record_version]) outdated_db = Inr db'"
    by (auto simp: app_conn_def)
  from initialize_db_applies_ddl_iff_max_differs [OF a b c d] m r
  have "executed (trace (snd (initialize_db ?w)))
       = [PragmaForeignKeysOn, SelectMax ''version'' ''schema_migrations'']
         @ ddl_statements @ [record_version]
     \<and> database_at DB_NAME (snd (initialize_db ?w)) = Some db'"
    by simp
  moreover have "ledger_as_created outdated_db"
    by (simp add: ledger_as_created_def b)
  note schema_run_result(1,3) [OF r this]
  ultimately show ?thesis using a b m r by blast
qed

text \<open>
  C2 as stated fails on a ledger that records version 1 and version 2: the ledger records
  the current version, the greatest version is not the current one, and the run applies
  all the DDL again.
\<close>

theorem initialize_db_reapplies_on_recorded_version:
  "version_recorded mixed_db
   \<and> fst (initialize_db (world_with mixed_db)) = Inr ()
   \<and> executed (trace (snd (initialize_db (world_with mixed_db))))
       = [PragmaForeignKeysOn, SelectMax ''version'' ''schema_migrations'']
         @ ddl_statements @ [record_version]"
  by code_simp

text \<open>
  C6, as amended. In every run of initialize_db, however it ends, the steps that occur
  occur in the stated order: opening the connection, checking the ledger, applying DDL,
  recording the version, writing metadata. A run that completes has opened the connection
  first and checked the ledger next; it has then applied the eight DDL statements and
  after them recorded the version exactly when the check found the schema outdated, and
  has done neither when the check found it up to date; the two metadata files come last.
\<close>

theorem initialize_db_step_order:
  assumes "trace w0 = []"
  shows "sorted (map step_rank (steps (trace (snd (initialize_db w0)))))
       \<and> (fst (initialize_db w0) = Inr () \<longrightarrow>
            steps (trace (snd (initialize_db w0))) =
              (if fst (is_schema_up_to_date app_conn w0) = Inr True
               then [OpenConnection, CheckLedger, WriteMetadata, WriteMetadata]
               else [OpenConnection, CheckLedger] @ replicate 8 ApplyDDL
                      @ [RecordVersion, WriteMetadata, WriteMetadata]))"
proof
  from initialize_db_shape [of w0] assms obtain a k r j where
    "steps (trace (snd (initialize_db w0))) =
       OpenConnection # replicate a CheckLedger @ replicate k ApplyDDL
         @ replicate r RecordVersion @ replicate j WriteMetadata"
    by (auto simp: steps_def)
  then show "sorted (map step_rank (steps (trace (snd (initialize_db w0)))))"
    by (auto simp: sorted_append)
  show "fst (initialize_db w0) = Inr () \<longrightarrow>
            steps (trace (snd (initialize_db w0))) =
              (if fst (is_schema_up_to_date app_conn w0) = Inr True
               then [OpenConnection, CheckLedger, WriteMetadata, WriteMetadata]
               else [OpenConnection, CheckLedger] @ replicate 8 ApplyDDL
                      @ [RecordVersion, WriteMetadata, WriteMetadata])"
  proof
    assume "fst (initialize_db w0) = Inr ()"
    then have "initialize_db w0 = (Inr (), snd (initialize_db w0))"
      by (simp add: prod_eq_iff)
    from initialize_db_Inr [OF this] obtain up where
      up: "fst (is_schema_up_to_date app_conn w0) = Inr up"
      and t: "trace (snd (initialize_db w0)) = trace w0 @
        [Print ''Checking for existing SQLite database ...'', Connect DB_NAME,
         Execute PragmaForeignKeysOn, Print (''Database found at '' @ DB_PATH w0),
         Execute (SelectMax ''version'' ''schema_migrations'')]
        @ (if up then [Print ''Schema already up-to-date.'']
           else Print ''Applying database schema ...''
                # map Execute (ddl_statements @ [record_version])
                @ [Commit, Print ''Schema created or updated successfully.''])
        @ [Print ''Writing connection info ...'', OpenWrite ''db_connection.txt'',
           MakeDirs ''db_visualizer'', OpenWrite ''db_visualizer/sqlite.env'',
           Print ''Database initialization complete!'', Print (''Location: '' @ DB_PATH w0)]"
      by blast
    show "steps (trace (snd (initialize_db w0))) =
              (if fst (is_schema_up_to_date app_conn w0) = Inr True
               then [OpenConnection, CheckLedger, WriteMetadata, WriteMetadata]
               else [OpenConnection, CheckLedger] @ replicate 8 ApplyDDL
                      @ [RecordVersion, WriteMetadata, WriteMetadata])"
      unfolding t up using assms
      by (cases up)
         (simp_all add: steps_def ddl_statements_def record_version_def numeral_eq_Suc)
  qed
qed

theorem initialize_db_step_order_witness:
  "trace (world_with outdated_db) = []
   \<and> fst (initialize_db (world_with outdated_db)) = Inr ()
   \<and> fst (is_schema_up_to_date app_conn (world_with outdated_db)) = Inr False
   \<and> sorted (map step_rank (steps (trace (snd (initialize_db (world_with outdated_db))))))
   \<and> steps (trace (snd (initialize_db (world_with outdated_db)))) =
       [OpenConnection, CheckLedger] @ replicate 8 ApplyDDL
         @ [RecordVersion, WriteMetadata, WriteMetadata]"
proof -
  have a: "trace (world_with outdated_db) = []"
    by (simp add: world_with_def fresh_world_def)
  have b: "fst (initialize_db (world_with outdated_db)) = Inr ()"
    by code_simp
  have c: "fst (is_schema_up_to_date app_conn (world_with outdated_db)) = Inr False"
    by code_simp
  from initialize_db_step_order [OF a]
  have s: "sorted (map step_rank (steps (trace (snd (initialize_db (world_with outdated_db))))))"
    and e: "fst (initialize_db (world_with outdated_db)) = Inr () \<longrightarrow>
            steps (trace (snd (initialize_db (world_with outdated_db)))) =
              (if fst (is_schema_up_to_date app_conn (world_with outdated_db)) = Inr True
               then [OpenConnection, CheckLedger, WriteMetadata, WriteMetadata]
               else [OpenConnection, CheckLedger] @ replicate 8 ApplyDDL
                      @ [RecordVersion, WriteMetadata, WriteMetadata])"
    by blast+
  from e b c have "steps (trace (snd (initialize_db (world_with outdated_db)))) =
       [OpenConnection, CheckLedger] @ replicate 8 ApplyDDL
         @ [RecordVersion, WriteMetadata, WriteMetadata]"
    by simp
  with a b c s show ?thesis by blast
qed

text \<open>
  C6 as stated fails on a database whose ledger already records version 1: the run
  completes with neither the DDL step nor the recording of the version in it.
\<close>

theorem initialize_db_skips_recording:
  "fst (initialize_db (world_with recorded_db)) = Inr ()
   \<and> steps (trace (snd (initialize_db (world_with recorded_db)))) =
       [OpenConnection, CheckLedger, WriteMetadata, WriteMetadata]"
  by code_simp

text \<open>
  C8, as amended. Where schema_migrations exists and has a version column,
  is_schema_up_to_date returns true if and only if the greatest version the ledger records,
  as MAX computes it, is SCHEMA_VERSION; for integer versions that is: the ledger is not
  empty and their maximum is SCHEMA_VERSION. So it returns false on an empty ledger, and
  false when every version recorded is an integer greater than SCHEMA_VERSION; run on such
  a database, initialize_db executes the eight DDL statements and the recording of the
  version again and leaves their result, or stops with the error of the one that raises.
\<close>

theorem is_schema_up_to_date_max_version:
  assumes "database_at (conn_path c) w = Some db" and "ledger db = Some l"
    and "''version'' \<in> set (column_names l)"
  shows "fst (is_schema_up_to_date c w) = Inr (max_val (recorded_versions l) = IntV SCHEMA_VERSION)
       \<and> (\<forall>vs. recorded_versions l = map IntV vs \<longrightarrow>
            fst (is_schema_up_to_date c w) = Inr (vs \<noteq> [] \<and> Max (set vs) = SCHEMA_VERSION))
       \<and> (rows l = [] \<longrightarrow> fst (is_schema_up_to_date c w) = Inr False)
       \<and> ((\<forall>v \<in> set (recorded_versions l). \<exists>i. v = IntV i \<and> SCHEMA_VERSION < i) \<longrightarrow>
            fst (is_schema_up_to_date c w) = Inr False)
       \<and> ((\<forall>v \<in> set (recorded_versions l). \<exists>i. v = IntV i \<and> SCHEMA_VERSION < i)
            \<and> conn_path c = DB_NAME \<and> trace w = [] \<longrightarrow>
            (case run_all True (clock w) (ddl_statements @ [record_version]) db of
               Inr db' \<Rightarrow>
                 executed (trace (snd (initialize_db w)))
                   = [PragmaForeignKeysOn, SelectMax ''version'' ''schema_migrations'']
                     @ ddl_statements @ [record_version]
                 \<and> database_at DB_NAME (snd (initialize_db w)) = Some db'
             | Inl e \<Rightarrow>
                 fst (initialize_db w) = Inl e
                 \<and> (\<exists>k. 0 < k \<and> k \<le> 9 \<and> executed (trace (snd (initialize_db w)))
                       = [PragmaForeignKeysOn, SelectMax ''version'' ''schema_migrations'']
                         @ take k (ddl_statements @ [record_version]))))"
proof -
  let ?r = "fst (is_schema_up_to_date c w)"
  let ?above = "\<forall>v \<in> set (recorded_versions l). \<exists>i. v = IntV i \<and> SCHEMA_VERSION < i"
  have v: "?r = Inr (max_val (recorded_versions l) = IntV SCHEMA_VERSION)"
    by (rule is_schema_up_to_date_value [OF assms])
  have ints: "\<forall>vs. recorded_versions l = map IntV vs \<longrightarrow>
      ?r = Inr (vs \<noteq> [] \<and> Max (set vs) = SCHEMA_VERSION)"
    by (simp add: v max_val_ints)
  have empty: "rows l = [] \<longrightarrow> ?r = Inr False"
    by (simp add: v recorded_versions_def max_val_def)
  have above: "?above \<longrightarrow> ?r = Inr False"
    using max_val_above [of "recorded_versions l"] by (simp add: v)
  have again: "case run_all True (clock w) (ddl_statements @ [record_version]) db of
               Inr db' \<Rightarrow>
                 executed (trace (snd (initialize_db w)))
                   = [PragmaForeignKeysOn, SelectMax ''version'' ''schema_migrations'']
                     @ ddl_statements @ [record_version]
                 \<and> database_at DB_NAME (snd (initialize_db w)) = Some db'
             | Inl e \<Rightarrow>
                 fst (initialize_db w) = Inl e
                 \<and> (\<exists>k. 0 < k \<and> k \<le> 9 \<and> executed (trace (snd (initialize_db w)))
                       = [PragmaForeignKeysOn, SelectMax ''version'' ''schema_migrations'']
                         @ take k (ddl_statements @ [record_version]))"
    if a: ?above and p: "conn_path c = DB_NAME" and t: "trace w = []"
  proof -
    from assms(1) p have d: "database_at DB_NAME w = Some db" by simp
    from max_val_above [OF a] have n: "max_val (recorded_versions l) \<noteq> IntV SCHEMA_VERSION" .
    note L = initialize_db_on_ledger [OF d assms(2,3)]
    show ?thesis
    proof (cases "run_all True (clock w) (ddl_statements @ [record_version]) db")
      case (Inl e)
      with L(3) [OF n Inl] t show ?thesis by simp
    next
      case (Inr db')
      with L(2) [OF n Inr] t show ?thesis by simp
    qed
  qed
  from v ints empty above again show ?thesis by blast
qed

theorem is_schema_up_to_date_max_version_witness:
  "database_at (conn_path app_conn) (world_with ahead_db) = Some ahead_db
   \<and> (\<exists>l. ledger ahead_db = Some l \<and> ''version'' \<in> set (column_names l)
          \<and> recorded_versions l = [IntV 2, IntV 3])
   \<and> fst (is_schema_up_to_date app_conn (world_with ahead_db)) = Inr False
   \<and> executed (trace (snd (initialize_db (world_with ahead_db))))
       = [PragmaForeignKeysOn, SelectMax ''version'' ''schema_migrations'']
         @ ddl_statements @ [record_version]
   \<and> (\<exists>db'. run_all True (clock (world_with ahead_db)) (ddl_statements @ [record_version])
                ahead_db = Inr db'
          \<and> database_at DB_NAME (snd (initialize_db (world_with ahead_db))) = Some db'
          \<and> installed db' \<and> version_recorded db')"
proof -
  let ?l = "\<lparr>tdef = schema_migrations_ddl,
             rows = [[(''version'', IntV 2), (''applied_at'', TextV ''2023-12-30 09:00:00'')],
                     [(''version'', IntV 3), (''applied_at'', TextV ''2023-12-31 10:00:00'')]]\<rparr>"
  let ?w = "world_with ahead_db"
  have a: "database_at (conn_path app_conn) ?w = Some ahead_db"
    by (simp add: database_at_def db_of_node_def world_with_def app_conn_def)
  have b: "ledger ahead_db = Some ?l"
    by (simp add: ledger_def ahead_db_def)
  have c: "''version'' \<in> set (column_names ?l)"
    by (simp add: column_names_def schema_migrations_ddl_def col_def)
  have d: "recorded_versions ?l = [IntV 2, IntV 3]"
    by (simp add: recorded_versions_def cell_def)
  have e: "conn_path app_conn = DB_NAME" "trace ?w = []"
    by (simp_all add: app_conn_def world_with_def fresh_world_def)
  have f: "\<forall>v \<in> set (recorded_versions ?l). \<exists>i. v = IntV i \<and> SCHEMA_VERSION < i"
    by (simp add: d SCHEMA_VERSION_def)
  have "fst (create_tables app_conn ?w) = Inr ()"
    by code_simp
  then have "create_tables app_conn ?w = (Inr (), snd (create_tables app_conn ?w))"
    by (simp add: prod_eq_iff)
  from create_tables_Inr [OF this] a obtain db' where
    r: "run_all True (clock ?w) (ddl_statements @ [record_version]) ahead_db = Inr db'"
    by (auto simp: app_conn_def)
  note T = is_schema_up_to_date_max_version [OF a b c]
  from T have "(\<forall>v \<in> set (recorded_versions ?l). \<exists>i. v = IntV i \<and> SCHEMA_VERSION < i) \<longrightarrow>
      fst (is_schema_up_to_date app_conn ?w) = Inr False"
    by blast
  with f have r1: "fst (is_schema_up_to_date app_conn ?w) = Inr False" by blast
  from T have "(\<forall>v \<in> set (recorded_versions ?l). \<exists>i. v = IntV i \<and> SCHEMA_VERSION < i)
            \<and> conn_path app_conn = DB_NAME \<and> trace ?w = [] \<longrightarrow>
            (case run_all True (clock ?w) (ddl_statements @ [record_version]) ahead_db of
               Inr db' \<Rightarrow>
                 executed (trace (snd (initialize_db ?w)))
                   = [PragmaForeignKeysOn, SelectMax ''version'' ''schema_migrations'']
                     @ ddl_statements @ [record_version]
                 \<and> database_at DB_NAME (snd (initialize_db ?w)) = Some db'
             | Inl e \<Rightarrow>
                 fst (initialize_db ?w) = Inl e
                 \<and> (\<exists>k. 0 < k \<and> k \<le> 9 \<and> executed (trace (snd (initialize_db ?w)))
                       = [PragmaForeignKeysOn, SelectMax ''version'' ''schema_migrations'']
                         @ take k (ddl_statements @ [record_version])))"
    by blast
  with f e have "case run_all True (clock ?w) (ddl_statements @ [record_version]) ahead_db of
               Inr db' \<Rightarrow>
                 executed (trace (snd (initialize_db ?w)))
                   = [PragmaForeignKeysOn, SelectMax ''version'' ''schema_migrations'']
                     @ ddl_statements @ [record_version]
                 \<and> database_at DB_NAME (snd (initialize_db ?w)) = Some db'
             | Inl e \<Rightarrow>
                 fst (initialize_db ?w) = Inl e
                 \<and> (\<exists>k. 0 < k \<and> k \<le> 9 \<and> executed (trace (snd (initialize_db ?w)))
                       = [PragmaForeignKeysOn, SelectMax ''version'' ''schema_migrations'']
                         @ take k (ddl_statements @ [record_version]))"
    by blast
  then have "executed (trace (snd (initialize_db ?w)))
       = [PragmaForeignKeysOn, SelectMax ''version'' ''schema_migrations'']
         @ ddl_statements @ [record_version]
     \<and> database_at DB_NAME (snd (initialize_db ?w)) = Some db'"
    by (simp add: r)
  with r1 have "fst (is_schema_up_to_date app_conn ?w) = Inr False
     \<and> executed (trace (snd (initialize_db ?w)))
       = [PragmaForeignKeysOn, SelectMax ''version'' ''schema_migrations'']
         @ ddl_statements @ [record_version]
     \<and> database_at DB_NAME (snd (initialize_db ?w)) = Some db'"
    by blast
  moreover have "ledger_as_created ahead_db"
    by (simp add: ledger_as_created_def b)
  note schema_run_result(1,3) [OF r this]
  ultimately show ?thesis using a b c d r by blast
qed

text \<open>
  C8 as stated fails where schema_migrations exists already, empty, without a version
  column: the SELECT raises, and is_schema_up_to_date returns nothing.
\<close>

theorem is_schema_up_to_date_raises_without_version:
  "ledger versionless_ledger_db
     = Some \<lparr>tdef = \<lparr>columns = [col ''name'' ''TEXT''], foreign_keys = []\<rparr>, rows = []\<rparr>
   \<and> fst (is_schema_up_to_date app_conn (world_with versionless_ledger_db))
       = Inl (OperationalError ''no such column: version'')"
  by (simp add: ledger_def versionless_ledger_db_def is_schema_up_to_date_def execute_def
      world_with_def fresh_world_def app_conn_def db_of_node_def select_max_def column_names_def
      col_def and_then_def Let_def log_def DB_NAME_def)

section \<open>The constraints on games and moves\<close>

lemma moves_row_ok:
  assumes "tdef t = moves_ddl" and "\<not> violates t r"
  shows "on_board (cell r ''row'') \<and> on_board (cell r ''col'')"
proof -
  have "on_board v" if "v \<noteq> Null" "check_holds (CheckBetween 0 2) v" for v
    using that by (cases v) (simp_all add: on_board_def)
  moreover from assms have
    "cell r ''row'' \<noteq> Null" "check_holds (CheckBetween 0 2) (cell r ''row'')"
    "cell r ''col'' \<noteq> Null" "check_holds (CheckBetween 0 2) (cell r ''col'')"
    by (simp_all add: violates_def moves_ddl_def col_def)
  ultimately show ?thesis by blast
qed

lemma games_row_ok:
  assumes "tdef t = games_ddl" and "\<not> violates t r"
  shows "game_status (cell r ''status'')"
proof -
  have "game_status v"
    if "v \<noteq> Null" "check_holds (CheckIn [''waiting'', ''active'', ''finished'']) v" for v
    using that by (cases v) (auto simp: game_status_def)
  moreover from assms have
    "cell r ''status'' \<noteq> Null"
    "check_holds (CheckIn [''waiting'', ''active'', ''finished'']) (cell r ''status'')"
    by (simp_all add: violates_def games_ddl_def col_def)
  ultimately show ?thesis by blast
qed

text \<open>A change to one table that keeps its definition and adds only rows the table's
  constraints accept keeps the invariant.\<close>
lemma board_checked_set_table:
  assumes "board_checked db" and "map_of (tables db) tbl = Some t"
    and "tdef t' = tdef t"
    and "\<And>r. r \<in> set (rows t') \<Longrightarrow> r \<in> set (rows t) \<or> (\<exists>t0. tdef t0 = tdef t \<and> \<not> violates t0 r)"
  shows "board_checked (set_table tbl t' db)"
proof -
  have m: "list_all (\<lambda>r. on_board (cell r ''row'') \<and> on_board (cell r ''col'')) (rows t')"
    if "tbl = ''moves''"
    unfolding list_all_iff
  proof
    fix r assume r: "r \<in> set (rows t')"
    from assms(1,2) that have d: "tdef t = moves_ddl"
      and old: "\<forall>x \<in> set (rows t). on_board (cell x ''row'') \<and> on_board (cell x ''col'')"
      by (simp_all add: board_checked_def rows_of_def list_all_iff)
    from assms(4) [OF r] show "on_board (cell r ''row'') \<and> on_board (cell r ''col'')"
    proof
      assume "r \<in> set (rows t)"
      with old show ?thesis by blast
    next
      assume "\<exists>t0. tdef t0 = tdef t \<and> \<not> violates t0 r"
      with d moves_row_ok show ?thesis by auto
    qed
  qed
  have g: "list_all (\<lambda>r. game_status (cell r ''status'')) (rows t')"
    if "tbl = ''games''"
    unfolding list_all_iff
  proof
    fix r assume r: "r \<in> set (rows t')"
    from assms(1,2) that have d: "tdef t = games_ddl"
      and old: "\<forall>x \<in> set (rows t). game_status (cell x ''status'')"
      by (simp_all add: board_checked_def rows_of_def list_all_iff)
    from assms(4) [OF r] show "game_status (cell r ''status'')"
    proof
      assume "r \<in> set (rows t)"
      with old show ?thesis by blast
    next
      assume "\<exists>t0. tdef t0 = tdef t \<and> \<not> violates t0 r"
      with d games_row_ok show ?thesis by auto
    qed
  qed
  show ?thesis
    using assms(1-3) m g
    by (auto simp: board_checked_def rows_of_def map_of_set_table split: option.splits)
qed

lemma insert_or_ignore_result:
  assumes "insert_or_ignore fk now tbl vals db = Inr db'"
  shows "db' = db \<or> (\<exists>t. map_of (tables db) tbl = Some t \<and> \<not> violates t (new_row now t vals)
            \<and> db' = set_table tbl (t\<lparr>rows := rows t @ [new_row now t vals]\<rparr>) db)"
  using assms
  by (auto simp: insert_or_ignore_def Let_def split: option.splits list.splits if_splits)

lemma board_checked_grows:
  assumes "board_checked db" and "grows db db'"
  shows "board_checked db'"
  using assms
  by (auto simp: board_checked_def rows_of_def grows_def split: option.splits)

lemma board_checked_run:
  assumes "board_checked db" and "run_stmt fk now s db = Inr (db', res)"
  shows "board_checked db'"
proof (cases s)
  case (CreateTableIfNotExists n d)
  with assms(2) create_table_Inr(3) have "grows db db'" by (auto simp: map_sum_Inr)
  with assms(1) show ?thesis by (rule board_checked_grows)
next
  case (CreateIndexIfNotExists i tbl cols)
  with assms(2) create_index_Inr(5) have "grows db db'" by (auto simp: map_sum_Inr)
  with assms(1) show ?thesis by (rule board_checked_grows)
next
  case (InsertOrIgnore tbl vals)
  with assms(2) have "insert_or_ignore fk now tbl vals db = Inr db'"
    by (auto simp: map_sum_Inr)
  from insert_or_ignore_result [OF this] show ?thesis
  proof
    assume "db' = db"
    with assms(1) show ?thesis by simp
  next
    assume "\<exists>t. map_of (tables db) tbl = Some t \<and> \<not> violates t (new_row now t vals)
            \<and> db' = set_table tbl (t\<lparr>rows := rows t @ [new_row now t vals]\<rparr>) db"
    then obtain t where t: "map_of (tables db) tbl = Some t" "\<not> violates t (new_row now t vals)"
      "db' = set_table tbl (t\<lparr>rows := rows t @ [new_row now t vals]\<rparr>) db" by blast
    show ?thesis
      unfolding t(3)
      by (rule board_checked_set_table [OF assms(1) t(1)]) (use t(2) in auto)
  qed
qed (use assms in \<open>auto simp: map_sum_Inr\<close>)

lemma board_checked_change:
  assumes "board_checked db" and "apply_change ch db = Some db'"
  shows "board_checked db'"
proof (cases ch)
  case (InsertRow tbl r)
  with assms(2) obtain t where t: "map_of (tables db) tbl = Some t" "\<not> violates t r"
    "db' = set_table tbl (t\<lparr>rows := rows t @ [r]\<rparr>) db"
    by (auto split: option.splits if_splits)
  show ?thesis
    unfolding t(3)
    by (rule board_checked_set_table [OF assms(1) t(1)]) (use t(2) in auto)
next
  case (UpdateRow tbl i r)
  with assms(2) obtain t where t: "map_of (tables db) tbl = Some t"
    "\<not> violates (t\<lparr>rows := take i (rows t) @ drop (Suc i) (rows t)\<rparr>) r"
    "db' = set_table tbl (t\<lparr>rows := (rows t)[i := r]\<rparr>) db"
    by (auto split: option.splits if_splits)
  show ?thesis
    unfolding t(3)
  proof (rule board_checked_set_table [OF assms(1) t(1)])
    fix x assume "x \<in> set (rows (t\<lparr>rows := (rows t)[i := r]\<rparr>))"
    then have "x = r \<or> x \<in> set (rows t)"
      using set_update_subset_insert [of "rows t" i r] by auto
    then show "x \<in> set (rows t) \<or> (\<exists>t0. tdef t0 = tdef t \<and> \<not> violates t0 x)"
    proof
      assume "x = r"
      with t(2) have "tdef (t\<lparr>rows := take i (rows t) @ drop (Suc i) (rows t)\<rparr>) = tdef t
          \<and> \<not> violates (t\<lparr>rows := take i (rows t) @ drop (Suc i) (rows t)\<rparr>) x" by simp
      then show ?thesis by blast
    qed simp
  qed simp
next
  case (DeleteRow tbl i)
  with assms(2) obtain t where t: "map_of (tables db) tbl = Some t"
    "db' = set_table tbl (t\<lparr>rows := take i (rows t) @ drop (Suc i) (rows t)\<rparr>) db"
    by (auto split: option.splits if_splits)
  show ?thesis
    unfolding t(2)
  proof (rule board_checked_set_table [OF assms(1) t(1)])
    fix x assume "x \<in> set (rows (t\<lparr>rows := take i (rows t) @ drop (Suc i) (rows t)\<rparr>))"
    then have "x \<in> set (rows t)"
      by (auto dest: in_set_takeD in_set_dropD)
    then show "x \<in> set (rows t) \<or> (\<exists>t0. tdef t0 = tdef t \<and> \<not> violates t0 x)" ..
  qed simp
next
  case (Run fk now s)
  with assms(2) obtain res where "run_stmt fk now s db = Inr (db', res)"
    by (auto split: sum.splits)
  with assms(1) show ?thesis by (rule board_checked_run)
qed

lemma board_checked_changes:
  "board_checked db \<Longrightarrow> board_checked (apply_changes chs db)"
proof (induction chs arbitrary: db)
  case Nil
  then show ?case by simp
next
  case (Cons ch chs)
  have "board_checked (case apply_change ch db of None \<Rightarrow> db | Some db' \<Rightarrow> db')"
    using Cons.prems board_checked_change [of db ch] by (cases "apply_change ch db") simp_all
  from Cons.IH [OF this] show ?case by simp
qed

lemma run_all_table_created:
  assumes "run_all fk now ss db = Inr db'" and "set ss \<subseteq> set ddl_statements"
    and "map_of (tables db) n = None"
  shows "map_of (tables db') n = None
       \<or> (\<exists>d. CreateTableIfNotExists n d \<in> set ss
              \<and> map_of (tables db') n = Some \<lparr>tdef = d, rows = []\<rparr>)"
  using assms
proof (induction ss arbitrary: db)
  case Nil
  then show ?case by simp
next
  case (Cons s ss)
  from Cons.prems(1) obtain db1 res where
    s: "run_stmt fk now s db = Inr (db1, res)" and rest: "run_all fk now ss db1 = Inr db'"
    by (auto split: sum.splits)
  from Cons.prems(2) have mem: "s \<in> set ddl_statements" "set ss \<subseteq> set ddl_statements" by auto
  show ?case
  proof (cases "map_of (tables db1) n = None")
    case True
    from Cons.IH [OF rest mem(2) True] show ?thesis by auto
  next
    case False
    have "\<exists>d. s = CreateTableIfNotExists n d \<and> create_table_if_not_exists n d db = Inr db1"
    proof (cases s)
      case (CreateTableIfNotExists n' d')
      with s have r: "create_table_if_not_exists n' d' db = Inr db1" by (auto simp: map_sum_Inr)
      have "n' = n"
      proof (rule ccontr)
        assume "n' \<noteq> n"
        then have "map_of (tables db1) n = map_of (tables db) n"
          using create_table_Inr(4) [OF r, of n] by simp
        with False Cons.prems(3) show False by simp
      qed
      with CreateTableIfNotExists r show ?thesis by simp
    next
      case (CreateIndexIfNotExists i tbl cols)
      with s have "create_index_if_not_exists i tbl cols db = Inr db1" by (auto simp: map_sum_Inr)
      from create_index_Inr(1) [OF this] False Cons.prems(3) show ?thesis by simp
    qed (use mem(1) in \<open>auto simp: ddl_statements_def\<close>)
    then obtain d where
      d: "s = CreateTableIfNotExists n d" "create_table_if_not_exists n d db = Inr db1"
      by blast
    from create_table_Inr(5) [OF d(2) Cons.prems(3)]
    have "map_of (tables db1) n = Some \<lparr>tdef = d, rows = []\<rparr>" .
    moreover from run_all_ddl [OF rest mem(2)] have "grows db1 db'" by simp
    ultimately have "map_of (tables db') n = Some \<lparr>tdef = d, rows = []\<rparr>"
      by (simp add: grows_def)
    with d(1) show ?thesis by auto
  qed
qed

lemma schema_run_creates:
  assumes "run_all fk now (ddl_statements @ [record_version]) db = Inr db'"
    and "map_of (tables db) n = None"
    and "CreateTableIfNotExists n d \<in> set ddl_statements"
    and "n \<noteq> ''schema_migrations''"
  shows "map_of (tables db') n = Some \<lparr>tdef = d, rows = []\<rparr>"
proof -
  from assms(1) obtain db1 where
    ddl: "run_all fk now ddl_statements db = Inr db1"
    and ins: "insert_or_ignore fk now ''schema_migrations'' [(''version'', IntV SCHEMA_VERSION)] db1 = Inr db'"
    by (auto simp: schema_run)
  from ddl_installs [OF ddl] have "installed db1" ..
  with assms(3) have "map_of (tables db1) n \<noteq> None"
    by (auto simp: installed_def list_all_iff)
  with run_all_table_created [OF ddl _ assms(2)] obtain d' where
    d': "CreateTableIfNotExists n d' \<in> set ddl_statements"
      "map_of (tables db1) n = Some \<lparr>tdef = d', rows = []\<rparr>" by auto
  from d'(1) assms(3) have "d' = d"
    by (auto simp: ddl_statements_def)
  with insert_Inr(2) [OF ins, of n] d'(2) assms(4) show ?thesis by simp
qed

text \<open>
  C9. When create_tables has created games and moves (neither was there before), then
  after any sequence of later changes to the database every row of moves has row and col
  among the integers 0, 1, 2, and every row of games has a status among waiting, active,
  finished.
\<close>

theorem schema_enforces_board_and_status:
  assumes "create_tables c w = (Inr (), w')"
    and "database_at (conn_path c) w = Some db"
    and "map_of (tables db) ''moves'' = None"
    and "map_of (tables db) ''games'' = None"
  shows "\<exists>db1. database_at (conn_path c) w' = Some db1
       \<and> list_all (\<lambda>r. \<exists>i j. cell r ''row'' = IntV i \<and> 0 \<le> i \<and> i \<le> 2
                          \<and> cell r ''col'' = IntV j \<and> 0 \<le> j \<and> j \<le> 2)
           (rows_of ''moves'' (apply_changes chs db1))
       \<and> list_all (\<lambda>r. cell r ''status'' \<in> {TextV ''waiting'', TextV ''active'', TextV ''finished''})
           (rows_of ''games'' (apply_changes chs db1))"
proof -
  from create_tables_Inr [OF assms(1)] assms(2) obtain db1 where
    run: "run_all (conn_foreign_keys c) (clock w) (ddl_statements @ [record_version]) db = Inr db1"
    and at: "database_at (conn_path c) w' = Some db1"
    by auto
  have "map_of (tables db1) ''moves'' = Some \<lparr>tdef = moves_ddl, rows = []\<rparr>"
    by (rule schema_run_creates [OF run assms(3)]) (simp_all add: ddl_statements_def)
  moreover have "map_of (tables db1) ''games'' = Some \<lparr>tdef = games_ddl, rows = []\<rparr>"
    by (rule schema_run_creates [OF run assms(4)]) (simp_all add: ddl_statements_def)
  ultimately have "board_checked db1"
    by (simp add: board_checked_def rows_of_def)
  then have "board_checked (apply_changes chs db1)"
    by (rule board_checked_changes)
  then have
    m: "list_all (\<lambda>r. on_board (cell r ''row'') \<and> on_board (cell r ''col''))
          (rows_of ''moves'' (apply_changes chs db1))"
    and g: "list_all (\<lambda>r. game_status (cell r ''status''))
          (rows_of ''games'' (apply_changes chs db1))"
    by (simp_all add: board_checked_def)
  have ob: "on_board v \<Longrightarrow> \<exists>i. v = IntV i \<and> 0 \<le> i \<and> i \<le> 2" for v
    by (cases v) (simp_all add: on_board_def)
  from m have "list_all (\<lambda>r. \<exists>i j. cell r ''row'' = IntV i \<and> 0 \<le> i \<and> i \<le> 2
                          \<and> cell r ''col'' = IntV j \<and> 0 \<le> j \<and> j \<le> 2)
           (rows_of ''moves'' (apply_changes chs db1))"
    unfolding list_all_iff using ob by blast
  moreover from g
  have "list_all (\<lambda>r. cell r ''status'' \<in> {TextV ''waiting'', TextV ''active'', TextV ''finished''})
           (rows_of ''games'' (apply_changes chs db1))"
    unfolding list_all_iff by (auto simp: game_status_def)
  ultimately show ?thesis using at by blast
qed

theorem schema_enforces_board_and_status_witness:
  "fst (create_tables app_conn (world_with outdated_db)) = Inr ()
   \<and> map_of (tables outdated_db) ''moves'' = None
   \<and> map_of (tables outdated_db) ''games'' = None
   \<and> (\<exists>db1. database_at DB_NAME (snd (create_tables app_conn (world_with outdated_db))) = Some db1
        \<and> list_all (\<lambda>r. \<exists>i j. cell r ''row'' = IntV i \<and> 0 \<le> i \<and> i \<le> 2
                          \<and> cell r ''col'' = IntV j \<and> 0 \<le> j \<and> j \<le> 2)
            (rows_of ''moves'' (apply_changes attempted_changes db1))
        \<and> list_all (\<lambda>r. cell r ''status'' \<in> {TextV ''waiting'', TextV ''active'', TextV ''finished''})
            (rows_of ''games'' (apply_changes attempted_changes db1))
        \<and> rows_of ''moves'' (apply_changes attempted_changes db1) = [move_row 1 0 2]
        \<and> rows_of ''games'' (apply_changes attempted_changes db1) = [game_row 1 ''active''])"
proof -
  let ?w' = "snd (create_tables app_conn (world_with outdated_db))"
  have a: "fst (create_tables app_conn (world_with outdated_db)) = Inr ()"
    by code_simp
  then have b: "create_tables app_conn (world_with outdated_db) = (Inr (), ?w')"
    by (simp add: prod_eq_iff)
  have c: "database_at (conn_path app_conn) (world_with outdated_db) = Some outdated_db"
    by (simp add: database_at_def db_of_node_def world_with_def app_conn_def)
  have d: "map_of (tables outdated_db) ''moves'' = None" "map_of (tables outdated_db) ''games'' = None"
    by (simp_all add: outdated_db_def)
  have e: "conn_path app_conn = DB_NAME" by (simp add: app_conn_def)
  have f: "rows_of ''moves'' (apply_changes attempted_changes (the (database_at DB_NAME ?w')))
             = [move_row 1 0 2]"
    "rows_of ''games'' (apply_changes attempted_changes (the (database_at DB_NAME ?w')))
             = [game_row 1 ''active'']"
    by code_simp+
  from schema_enforces_board_and_status [OF b c d, of attempted_changes] obtain db1 where
    db1: "database_at DB_NAME ?w' = Some db1"
      "list_all (\<lambda>r. \<exists>i j. cell r ''row'' = IntV i \<and> 0 \<le> i \<and> i \<le> 2
                          \<and> cell r ''col'' = IntV j \<and> 0 \<le> j \<and> j \<le> 2)
            (rows_of ''moves'' (apply_changes attempted_changes db1))"
      "list_all (\<lambda>r. cell r ''status'' \<in> {TextV ''waiting'', TextV ''active'', TextV ''finished''})
            (rows_of ''games'' (apply_changes attempted_changes db1))"
    unfolding e by blast
  from f db1(1) have "rows_of ''moves'' (apply_changes attempted_changes db1) = [move_row 1 0 2]"
    "rows_of ''games'' (apply_changes attempted_changes db1) = [game_row 1 ''active'']"
    by simp_all
  with a d db1 show ?thesis by blast
qed

end
